theory Spec2Isabelle
  imports Main "HOL-Library.Word" "HOL-Library.Multiset"
begin

section \<open>The thread pool of \<^verbatim>\<open>src/gui/src/thread_pool.cpp\<close>\<close>

text \<open>
  The pool owns a vector of worker threads, a target count \<^verbatim>\<open>m_num_threads\<close>, a task
  queue and one mutex with two condition variables. The functions below follow the
  C++ member functions line by line. \<^verbatim>\<open>size_t\<close> is a 64-bit unsigned integer and
  \<^verbatim>\<open>unsigned int\<close> (the type of \<^verbatim>\<open>0u\<close> and of \<^verbatim>\<open>hardware_concurrency()\<close>) a 32-bit one,
  as on the 64-bit targets this code is built for; both wrap around.
\<close>

type_synonym size_t = "64 word"
type_synonym unsigned_int = "32 word"

subsection \<open>Data\<close>

text \<open>
  A \<^verbatim>\<open>std::thread\<close> of the pool runs the worker lambda, which captures the loop variable
  \<^verbatim>\<open>i\<close> of \<^verbatim>\<open>start_threads\<close>: the first field. The second field is a history variable,
  the number of threads the pool had spawned before this one; it tells two thread
  objects with the same captured index apart.
\<close>

datatype thread = Thread (captured_i: size_t) (serial: nat)

text \<open>Who executes a statement: the thread that calls the pool's member functions, or
  the worker that captured the given index.\<close>

datatype owner = Caller | Worker size_t

datatype condition = Worker_condition | Task_queue_completed_condition

text \<open>
  The history of a pool is a history variable too: the calls on the mutex, the
  condition variables and the thread objects, and the stores to the two shared
  variables, in program order. The code never reads it.
\<close>

datatype event =
    Acquire owner
  | Release owner
  | Store_num_threads owner
  | Store_task_queue owner
  | Notify_all condition
  | Notify_one condition
  | Spawn thread
  | Join thread

record 'task ThreadPool =
  m_num_threads :: size_t
  m_threads :: "thread list"
  m_task_queue :: "'task list"
  history :: "event list"

text \<open>What goes wrong without a return value: \<^verbatim>\<open>back()\<close> of an empty vector and
  \<^verbatim>\<open>front()\<close> of an empty deque are undefined behaviour, a wait whose condition never
  comes true does not return, and the destructor of a \<^verbatim>\<open>std::thread\<close> that is still
  joinable calls \<^verbatim>\<open>std::terminate\<close>; the last error names the threads destroyed so.\<close>

datatype error =
    Back_of_empty_vector
  | Front_of_empty_deque
  | Blocked_forever
  | Joinable_thread_destroyed "thread list"

subsection \<open>The library calls the code makes\<close>

definition emit :: "event \<Rightarrow> 'task ThreadPool \<Rightarrow> 'task ThreadPool" where
  "emit e p = p\<lparr>history := history p @ [e]\<rparr>"

definition lock :: "owner \<Rightarrow> 'task ThreadPool \<Rightarrow> 'task ThreadPool" where
  "lock w p = emit (Acquire w) p"

definition unlock :: "owner \<Rightarrow> 'task ThreadPool \<Rightarrow> 'task ThreadPool" where
  "unlock w p = emit (Release w) p"

definition notify_all :: "condition \<Rightarrow> 'task ThreadPool \<Rightarrow> 'task ThreadPool" where
  "notify_all c p = emit (Notify_all c) p"

definition notify_one :: "condition \<Rightarrow> 'task ThreadPool \<Rightarrow> 'task ThreadPool" where
  "notify_one c p = emit (Notify_one c) p"

definition store_num_threads :: "owner \<Rightarrow> size_t \<Rightarrow> 'task ThreadPool \<Rightarrow> 'task ThreadPool" where
  "store_num_threads w n p = emit (Store_num_threads w) (p\<lparr>m_num_threads := n\<rparr>)"

definition store_task_queue :: "owner \<Rightarrow> 'task list \<Rightarrow> 'task ThreadPool \<Rightarrow> 'task ThreadPool" where
  "store_task_queue w q p = emit (Store_task_queue w) (p\<lparr>m_task_queue := q\<rparr>)"

text \<open>The threads spawned and joined so far, read off the history.\<close>

fun spawned_in :: "event list \<Rightarrow> thread list" where
  "spawned_in [] = []"
| "spawned_in (Spawn t # es) = t # spawned_in es"
| "spawned_in (e # es) = spawned_in es"

fun joined_in :: "event list \<Rightarrow> thread list" where
  "joined_in [] = []"
| "joined_in (Join t # es) = t # joined_in es"
| "joined_in (e # es) = joined_in es"

definition spawned :: "'task ThreadPool \<Rightarrow> thread list" where
  "spawned p = spawned_in (history p)"

definition joined :: "'task ThreadPool \<Rightarrow> thread list" where
  "joined p = joined_in (history p)"

text \<open>\<^verbatim>\<open>m_threads.emplace_back([this, i] {...})\<close>: a new thread object that captured \<open>i\<close>.\<close>

definition emplace_back :: "size_t \<Rightarrow> 'task ThreadPool \<Rightarrow> 'task ThreadPool" where
  "emplace_back i p =
     (let t = Thread i (length (spawned p))
      in emit (Spawn t) (p\<lparr>m_threads := m_threads p @ [t]\<rparr>))"

text \<open>\<^verbatim>\<open>m_threads.back().join(); m_threads.pop_back();\<close> on a vector that is not empty.
  The join returns when the worker has left its loop; the model records the call.\<close>

definition join_back :: "'task ThreadPool \<Rightarrow> 'task ThreadPool" where
  "join_back p = emit (Join (last (m_threads p))) p"

definition pop_back :: "'task ThreadPool \<Rightarrow> 'task ThreadPool" where
  "pop_back p = p\<lparr>m_threads := butlast (m_threads p)\<rparr>"

text \<open>\<^verbatim>\<open>m_threads.size()\<close>, a \<^verbatim>\<open>size_t\<close>.\<close>

definition size_threads :: "'task ThreadPool \<Rightarrow> size_t" where
  "size_threads p = of_nat (length (m_threads p))"

subsection \<open>The member functions\<close>

text \<open>The loop of \<^verbatim>\<open>start_threads\<close>:
  \<^verbatim>\<open>for (size_t i = m_threads.size(); i < m_num_threads; ++i) m_threads.emplace_back(...)\<close>.\<close>

function start_loop :: "size_t \<Rightarrow> 'task ThreadPool \<Rightarrow> 'task ThreadPool" where
  "start_loop i p = (if i < m_num_threads p then start_loop (i + 1) (emplace_back i p) else p)"
  by pat_completeness auto

termination start_loop
proof (relation "measure (\<lambda>(i, p). unat (m_num_threads p) - unat i)")
  show "wf (measure (\<lambda>(i, p :: 'a ThreadPool). unat (m_num_threads p) - unat i))"
    by simp
next
  fix i :: size_t and p :: "'a ThreadPool"
  assume "i < m_num_threads p"
  then have below: "unat i < unat (m_num_threads p)"
    by (simp add: word_less_nat_alt)
  have "unat (m_num_threads p) < 2 ^ 64"
    using unsigned_less [of "m_num_threads p"] by simp
  with below have "unat i + 1 < 2 ^ 64"
    by linarith
  then have "unat (i + 1) = Suc (unat i)"
    by (simp add: unat_word_ariths)
  moreover have "m_num_threads (emplace_back i p) = m_num_threads p"
    by (simp add: emplace_back_def emit_def Let_def)
  ultimately show "((i + 1, emplace_back i p), (i, p))
      \<in> measure (\<lambda>(i, p). unat (m_num_threads p) - unat i)"
    using below by simp
qed

declare start_loop.simps [simp del]

definition start_threads :: "size_t \<Rightarrow> 'task ThreadPool \<Rightarrow> 'task ThreadPool" where
  "start_threads num p =
     (let p = store_num_threads Caller (m_num_threads p + num) p
      in start_loop (size_threads p) p)"

text \<open>The loop of \<^verbatim>\<open>shutdown_threads\<close>:
  \<^verbatim>\<open>for (auto i = 0u; i < num_to_close; ++i) { m_threads.back().join(); m_threads.pop_back(); }\<close>.
  The counter is an \<^verbatim>\<open>unsigned int\<close>, converted to \<^verbatim>\<open>size_t\<close> for the comparison.\<close>

function join_loop :: "unsigned_int \<Rightarrow> size_t \<Rightarrow> 'task ThreadPool \<Rightarrow> error + 'task ThreadPool" where
  "join_loop i num_to_close p =
     (if ucast i < num_to_close
      then (if m_threads p = [] then Inl Back_of_empty_vector
            else join_loop (i + 1) num_to_close (pop_back (join_back p)))
      else Inr p)"
  by pat_completeness auto

termination join_loop
  by (relation "measure (\<lambda>(i, n, p). length (m_threads p))")
     (simp_all add: pop_back_def join_back_def emit_def)

declare join_loop.simps [simp del]

definition shutdown_threads :: "size_t \<Rightarrow> 'task ThreadPool \<Rightarrow> error + 'task ThreadPool" where
  "shutdown_threads num p =
     (let num_to_close = min num (m_num_threads p);
          p = lock Caller p;
          p = store_num_threads Caller (m_num_threads p - num_to_close) p;
          p = unlock Caller p;
          p = notify_all Worker_condition p
      in join_loop 0 num_to_close p)"

definition set_n_threads :: "size_t \<Rightarrow> 'task ThreadPool \<Rightarrow> error + 'task ThreadPool" where
  "set_n_threads num p =
     (if m_num_threads p > num then shutdown_threads (m_num_threads p - num) p
      else if m_num_threads p < num then Inr (start_threads (num - m_num_threads p) p)
      else Inr p)"

definition flush_queue :: "'task ThreadPool \<Rightarrow> 'task ThreadPool" where
  "flush_queue p = unlock Caller (store_task_queue Caller [] (lock Caller p))"

text \<open>Modelled from the spec: the initial values of the members are given in
  \<^verbatim>\<open>thread_pool.h\<close>, which is not among the sources. By the spec a pool spawns its
  workers in the constructor and owns nothing before: no thread, target count 0, an
  empty queue.\<close>

definition empty_pool :: "'task ThreadPool" where
  "empty_pool = \<lparr>m_num_threads = 0, m_threads = [], m_task_queue = [], history = []\<rparr>"

text \<open>\<^verbatim>\<open>ThreadPool(size_t max_num_threads, bool force)\<close>; the first argument of the model
  is what \<^verbatim>\<open>std::thread::hardware_concurrency()\<close> returns, an \<^verbatim>\<open>unsigned int\<close>.\<close>

definition ThreadPool :: "unsigned_int \<Rightarrow> size_t \<Rightarrow> bool \<Rightarrow> 'task ThreadPool" where
  "ThreadPool hardware_concurrency max_num_threads force =
     (let max_num_threads =
            (if \<not> force then min (ucast hardware_concurrency) max_num_threads
             else max_num_threads)
      in start_threads max_num_threads empty_pool)"

text \<open>
  \<^verbatim>\<open>m_task_queue_completed_condition.wait(lock, [this]() { return m_task_queue.empty(); })\<close>
  is \<^verbatim>\<open>while (!pred()) wait(lock);\<close>. While the caller is blocked the workers and the
  submitters change the queue. The first argument lists the queues the caller finds each
  time it holds the mutex and evaluates the predicate: at the call, and after every
  wake-up. When the list ends before an empty queue was found the caller stays blocked.
\<close>

fun wait_loop :: "'task list list \<Rightarrow> 'task ThreadPool \<Rightarrow> error + 'task ThreadPool" where
  "wait_loop [] p = Inl Blocked_forever"
| "wait_loop (q # qs) p =
     (let p = p\<lparr>m_task_queue := q\<rparr>
      in if m_task_queue p = [] then Inr (unlock Caller p)
         else wait_loop qs (lock Caller (unlock Caller p)))"

definition wait_until_queue_completed ::
  "'task list list \<Rightarrow> 'task ThreadPool \<Rightarrow> error + 'task ThreadPool" where
  "wait_until_queue_completed qs p = wait_loop qs (lock Caller p)"

text \<open>
  \<^verbatim>\<open>~ThreadPool()\<close>. After the two calls of the body the members are destroyed, the
  vector \<^verbatim>\<open>m_threads\<close> among them and with it every \<^verbatim>\<open>std::thread\<close> it still holds.
  A thread in the vector is joinable: the code joins a thread only to pop it right
  after. The destructor of a joinable \<^verbatim>\<open>std::thread\<close> calls \<^verbatim>\<open>std::terminate\<close>.
\<close>

definition destroy_threads :: "'task ThreadPool \<Rightarrow> error + 'task ThreadPool" where
  "destroy_threads p =
     (if m_threads p = [] then Inr p else Inl (Joinable_thread_destroyed (m_threads p)))"

definition ThreadPool_destructor ::
  "'task list list \<Rightarrow> 'task ThreadPool \<Rightarrow> error + 'task ThreadPool" where
  "ThreadPool_destructor qs p =
     (case wait_until_queue_completed qs p of
        Inl e \<Rightarrow> Inl e
      | Inr p \<Rightarrow>
          (case shutdown_threads (size_threads p) p of
             Inl e \<Rightarrow> Inl e
           | Inr p \<Rightarrow> destroy_threads p))"

subsection \<open>The worker\<close>

text \<open>
  The lambda of \<^verbatim>\<open>start_threads\<close>, one step at a time. A control point is where the
  worker stands:
  \<^item> \<open>Lock_mutex\<close>: top of \<^verbatim>\<open>while (true)\<close>, about to construct the \<^verbatim>\<open>unique_lock\<close>;
  \<^item> \<open>Look_for_work\<close>: holding the mutex, about to evaluate
    \<^verbatim>\<open>i < m_num_threads && m_task_queue.empty()\<close>;
  \<^item> \<open>Wait_for_work\<close>: inside \<^verbatim>\<open>m_worker_condition.wait(lock)\<close>, the mutex released;
  \<^item> \<open>Check_exit\<close>: holding the mutex, about to evaluate \<^verbatim>\<open>i >= m_num_threads\<close>;
  \<^item> \<open>Take_task\<close>: holding the mutex, about to move the front of the queue out;
  \<^item> \<open>Run_task t\<close>: inside \<^verbatim>\<open>task()\<close>, the mutex released;
  \<^item> \<open>Exited\<close>: after \<^verbatim>\<open>break\<close>, the thread function has returned.
  A step is taken when the scheduler lets the worker move: when the mutex is free for
  a step that acquires it, when the worker is woken for the step out of the wait, when
  the task returns for the step out of \<open>Run_task\<close>.
\<close>

datatype 'task control =
    Lock_mutex
  | Look_for_work
  | Wait_for_work
  | Check_exit
  | Take_task
  | Run_task 'task
  | Exited

fun worker_step ::
  "size_t \<Rightarrow> 'task control \<times> 'task ThreadPool \<Rightarrow> error + 'task control \<times> 'task ThreadPool" where
  "worker_step i (Lock_mutex, p) = Inr (Look_for_work, lock (Worker i) p)"
| "worker_step i (Look_for_work, p) =
     (if i < m_num_threads p \<and> m_task_queue p = []
      then Inr (Wait_for_work, unlock (Worker i) (notify_all Task_queue_completed_condition p))
      else Inr (Check_exit, p))"
| "worker_step i (Wait_for_work, p) = Inr (Look_for_work, lock (Worker i) p)"
| "worker_step i (Check_exit, p) =
     (if i \<ge> m_num_threads p then Inr (Exited, unlock (Worker i) p)
      else Inr (Take_task, p))"
| "worker_step i (Take_task, p) =
     (case m_task_queue p of
        [] \<Rightarrow> Inl Front_of_empty_deque
      | task # rest \<Rightarrow>
          Inr (Run_task task, unlock (Worker i) (store_task_queue (Worker i) rest p)))"
| "worker_step i (Run_task task, p) = Inr (Lock_mutex, p)"
| "worker_step i (Exited, p) = Inr (Exited, p)"

text \<open>A worker taking its steps in the pool states \<open>ps\<close>, one state for each step.
  The states are whatever the other threads and the worker itself have made of the
  pool by then, so nothing is assumed of them.\<close>

fun worker_steps :: "size_t \<Rightarrow> 'task ThreadPool list \<Rightarrow> 'task control \<Rightarrow> error + 'task control" where
  "worker_steps i [] c = Inr c"
| "worker_steps i (p # ps) c =
     (case worker_step i (c, p) of
        Inl e \<Rightarrow> Inl e
      | Inr (c', p') \<Rightarrow> worker_steps i ps c')"

text \<open>Modelled from the spec: the submission operation is a template in
  \<^verbatim>\<open>thread_pool.h\<close>, which is not among the sources. By the spec it appends the task to
  the tail of the queue under the shared lock and wakes one worker through the
  work-or-shutdown condition.\<close>

definition enqueue_task :: "'task \<Rightarrow> 'task ThreadPool \<Rightarrow> 'task ThreadPool" where
  "enqueue_task task p =
     notify_one Worker_condition
       (unlock Caller (store_task_queue Caller (m_task_queue p @ [task]) (lock Caller p)))"

text \<open>One worker and the submitters, interleaved in any order. The first component of
  the state lists the tasks the worker has called so far, in the order of the calls.\<close>

datatype 'task action = Submit 'task | Worker_moves

fun called :: "'task control \<Rightarrow> 'task control \<Rightarrow> 'task list" where
  "called Take_task (Run_task task) = [task]"
| "called c c' = []"

fun serve ::
  "size_t \<Rightarrow> 'task action list \<Rightarrow> 'task list \<times> 'task control \<times> 'task ThreadPool \<Rightarrow>
     error + 'task list \<times> 'task control \<times> 'task ThreadPool" where
  "serve i [] s = Inr s"
| "serve i (Submit task # as) (ts, c, p) = serve i as (ts, c, enqueue_task task p)"
| "serve i (Worker_moves # as) (ts, c, p) =
     (case worker_step i (c, p) of
        Inl e \<Rightarrow> Inl e
      | Inr (c', p') \<Rightarrow> serve i as (ts @ called c c', c', p'))"


text \<open>The control points inside the scope of the worker's \<^verbatim>\<open>unique_lock\<close> at which
  the lock owns the mutex: from its construction, or from the return of the wait, to
  the wait, the \<^verbatim>\<open>break\<close> or \<^verbatim>\<open>lock.unlock()\<close>.\<close>

fun inside_lock :: "'task control \<Rightarrow> bool" where
  "inside_lock Look_for_work = True"
| "inside_lock Check_exit = True"
| "inside_lock Take_task = True"
| "inside_lock c = False"


subsection \<open>Stores and the mutex\<close>

text \<open>The stores of a history made by a thread that did not hold the mutex then. The
  first argument is the holder of the mutex before the first event.\<close>

fun stores_without_lock :: "owner option \<Rightarrow> event list \<Rightarrow> event list" where
  "stores_without_lock h [] = []"
| "stores_without_lock h (Acquire w # es) = stores_without_lock (Some w) es"
| "stores_without_lock h (Release w # es) = stores_without_lock None es"
| "stores_without_lock h (Store_num_threads w # es) =
     (if h = Some w then [] else [Store_num_threads w]) @ stores_without_lock h es"
| "stores_without_lock h (Store_task_queue w # es) =
     (if h = Some w then [] else [Store_task_queue w]) @ stores_without_lock h es"
| "stores_without_lock h (e # es) = stores_without_lock h es"

text \<open>The holder of the mutex after a history, from the holder before it.\<close>

fun holder :: "owner option \<Rightarrow> event list \<Rightarrow> owner option" where
  "holder h [] = h"
| "holder h (Acquire w # es) = holder (Some w) es"
| "holder h (Release w # es) = holder None es"
| "holder h (e # es) = holder h es"

subsection \<open>Sequences of calls\<close>

datatype call = Start_threads size_t | Shutdown_threads size_t | Set_n_threads size_t | Flush_queue

fun perform :: "call \<Rightarrow> 'task ThreadPool \<Rightarrow> error + 'task ThreadPool" where
  "perform (Start_threads num) p = Inr (start_threads num p)"
| "perform (Shutdown_threads num) p = shutdown_threads num p"
| "perform (Set_n_threads num) p = set_n_threads num p"
| "perform Flush_queue p = Inr (flush_queue p)"

fun perform_all :: "call list \<Rightarrow> 'task ThreadPool \<Rightarrow> error + 'task ThreadPool" where
  "perform_all [] p = Inr p"
| "perform_all (c # cs) p =
     (case perform c p of Inl e \<Rightarrow> Inl e | Inr p' \<Rightarrow> perform_all cs p')"

text \<open>
  The two counters of the resizing functions are machine integers. A call wraps when
  \<^verbatim>\<open>m_num_threads += num\<close> passes \<open>2^64\<close>, or when the \<^verbatim>\<open>unsigned int\<close> counter of the
  joining loop would pass \<open>2^32\<close> before it reaches \<^verbatim>\<open>num_to_close\<close>.
\<close>

fun wraps :: "call \<Rightarrow> 'task ThreadPool \<Rightarrow> bool" where
  "wraps (Start_threads num) p = (2 ^ 64 \<le> unat (m_num_threads p) + unat num)"
| "wraps (Shutdown_threads num) p = (2 ^ 32 \<le> unat (min num (m_num_threads p)))"
| "wraps (Set_n_threads num) p = (2 ^ 32 \<le> unat (m_num_threads p) - unat num)"
| "wraps Flush_queue p = False"

fun never_wraps :: "call list \<Rightarrow> 'task ThreadPool \<Rightarrow> bool" where
  "never_wraps [] p = True"
| "never_wraps (c # cs) p =
     (\<not> wraps c p \<and> (case perform c p of Inl e \<Rightarrow> True | Inr p' \<Rightarrow> never_wraps cs p'))"

text \<open>What the resizing functions keep true of a pool, whether a counter wraps or not:
  it owns at least as many threads as the target count says.\<close>

definition owns_enough :: "'task ThreadPool \<Rightarrow> bool" where
  "owns_enough p \<longleftrightarrow>
     unat (m_num_threads p) \<le> length (m_threads p) \<and> length (m_threads p) < 2 ^ 64"

text \<open>The thread at position \<open>j\<close> of the vector captured the index \<open>j\<close>.\<close>

definition indexed :: "'task ThreadPool \<Rightarrow> bool" where
  "indexed p \<longleftrightarrow> map captured_i (m_threads p) = map of_nat [0..<length (m_threads p)]"

text \<open>The bookkeeping of thread objects: every thread spawned so far has been joined
  or is in the vector, and never both or twice.\<close>

definition ledger :: "'task ThreadPool \<Rightarrow> bool" where
  "ledger p \<longleftrightarrow>
     mset (spawned p) = mset (joined p) + mset (m_threads p) \<and>
     distinct (spawned p) \<and>
     (\<forall>t \<in> set (spawned p). serial t < length (spawned p))"

section \<open>Basic facts\<close>

lemma emit_simps [simp]:
  "m_num_threads (emit e p) = m_num_threads p"
  "m_threads (emit e p) = m_threads p"
  "m_task_queue (emit e p) = m_task_queue p"
  "history (emit e p) = history p @ [e]"
  by (simp_all add: emit_def)

lemma lock_simps [simp]:
  "m_num_threads (lock w p) = m_num_threads p"
  "m_threads (lock w p) = m_threads p"
  "m_task_queue (lock w p) = m_task_queue p"
  "history (lock w p) = history p @ [Acquire w]"
  by (simp_all add: lock_def)

lemma unlock_simps [simp]:
  "m_num_threads (unlock w p) = m_num_threads p"
  "m_threads (unlock w p) = m_threads p"
  "m_task_queue (unlock w p) = m_task_queue p"
  "history (unlock w p) = history p @ [Release w]"
  by (simp_all add: unlock_def)

lemma notify_all_simps [simp]:
  "m_num_threads (notify_all c p) = m_num_threads p"
  "m_threads (notify_all c p) = m_threads p"
  "m_task_queue (notify_all c p) = m_task_queue p"
  "history (notify_all c p) = history p @ [Notify_all c]"
  by (simp_all add: notify_all_def)

lemma notify_one_simps [simp]:
  "m_num_threads (notify_one c p) = m_num_threads p"
  "m_threads (notify_one c p) = m_threads p"
  "m_task_queue (notify_one c p) = m_task_queue p"
  "history (notify_one c p) = history p @ [Notify_one c]"
  by (simp_all add: notify_one_def)

lemma store_num_threads_simps [simp]:
  "m_num_threads (store_num_threads w n p) = n"
  "m_threads (store_num_threads w n p) = m_threads p"
  "m_task_queue (store_num_threads w n p) = m_task_queue p"
  "history (store_num_threads w n p) = history p @ [Store_num_threads w]"
  by (simp_all add: store_num_threads_def)

lemma store_task_queue_simps [simp]:
  "m_num_threads (store_task_queue w q p) = m_num_threads p"
  "m_threads (store_task_queue w q p) = m_threads p"
  "m_task_queue (store_task_queue w q p) = q"
  "history (store_task_queue w q p) = history p @ [Store_task_queue w]"
  by (simp_all add: store_task_queue_def)

lemma emplace_back_simps [simp]:
  "m_num_threads (emplace_back i p) = m_num_threads p"
  "m_threads (emplace_back i p) = m_threads p @ [Thread i (length (spawned p))]"
  "m_task_queue (emplace_back i p) = m_task_queue p"
  "history (emplace_back i p) = history p @ [Spawn (Thread i (length (spawned p)))]"
  by (simp_all add: emplace_back_def Let_def)

lemma join_back_simps [simp]:
  "m_num_threads (join_back p) = m_num_threads p"
  "m_threads (join_back p) = m_threads p"
  "m_task_queue (join_back p) = m_task_queue p"
  "history (join_back p) = history p @ [Join (last (m_threads p))]"
  by (simp_all add: join_back_def)

lemma pop_back_simps [simp]:
  "m_num_threads (pop_back p) = m_num_threads p"
  "m_threads (pop_back p) = butlast (m_threads p)"
  "m_task_queue (pop_back p) = m_task_queue p"
  "history (pop_back p) = history p"
  by (simp_all add: pop_back_def)

lemma spawned_in_append [simp]: "spawned_in (xs @ ys) = spawned_in xs @ spawned_in ys"
  by (induction xs rule: spawned_in.induct) simp_all

lemma joined_in_append [simp]: "joined_in (xs @ ys) = joined_in xs @ joined_in ys"
  by (induction xs rule: joined_in.induct) simp_all

lemma joined_in_map_Join [simp]: "joined_in (map Join ts) = ts"
  by (induction ts) simp_all

lemma spawned_in_map_Join [simp]: "spawned_in (map Join ts) = []"
  by (induction ts) simp_all

lemma spawned_in_map_Spawn [simp]: "spawned_in (map Spawn ts) = ts"
  by (induction ts) simp_all

lemma joined_in_map_Spawn [simp]: "joined_in (map Spawn ts) = []"
  by (induction ts) simp_all

lemma unat_succ_below:
  fixes i n :: "'a::len word"
  assumes "unat i < m" and "m < 2 ^ LENGTH('a)"
  shows "unat (i + 1) = Suc (unat i)"
proof -
  from assms have "unat i + 1 < 2 ^ LENGTH('a)"
    by linarith
  then show ?thesis
    by (simp add: unat_word_ariths)
qed

lemma unat_ucast_counter: "unat (ucast (i :: unsigned_int) :: size_t) = unat i"
proof -
  have "unat i < 2 ^ 32"
    using unsigned_less [of i] by simp
  then have "unat i < 2 ^ 64"
    by (rule less_trans) simp
  then show ?thesis
    by (simp add: unsigned_ucast_eq take_bit_nat_eq_self)
qed

lemma counter_less: "(ucast (i :: unsigned_int) < (k :: size_t)) = (unat i < unat k)"
  by (simp add: word_less_nat_alt unat_ucast_counter)

subsection \<open>The loop of \<^verbatim>\<open>start_threads\<close>\<close>

lemma start_loop_m_num_threads [simp]: "m_num_threads (start_loop i p) = m_num_threads p"
  by (induction i p rule: start_loop.induct) (subst start_loop.simps, simp)

lemma start_loop_m_task_queue [simp]: "m_task_queue (start_loop i p) = m_task_queue p"
  by (induction i p rule: start_loop.induct) (subst start_loop.simps, simp)

lemma start_loop_length:
  "length (m_threads (start_loop i p)) = length (m_threads p) + (unat (m_num_threads p) - unat i)"
proof (induction i p rule: start_loop.induct)
  case (1 i p)
  show ?case
  proof (cases "i < m_num_threads p")
    case True
    then have below: "unat i < unat (m_num_threads p)"
      by (simp add: word_less_nat_alt)
    moreover have "unat (m_num_threads p) < 2 ^ LENGTH(64)"
      by (rule unsigned_less)
    ultimately have "unat (i + 1) = Suc (unat i)"
      by (rule unat_succ_below)
    with True below "1.IH" show ?thesis
      by (subst start_loop.simps) simp
  next
    case False
    then have "unat (m_num_threads p) \<le> unat i"
      by (simp add: word_less_nat_alt)
    with False show ?thesis
      by (subst start_loop.simps) simp
  qed
qed

lemma start_loop_spawns:
  "\<exists>ts. m_threads (start_loop i p) = m_threads p @ ts \<and>
        history (start_loop i p) = history p @ map Spawn ts \<and>
        length ts = unat (m_num_threads p) - unat i \<and>
        map captured_i ts = map of_nat [unat i..<unat (m_num_threads p)]"
proof (induction i p rule: start_loop.induct)
  case (1 i p)
  show ?case
  proof (cases "i < m_num_threads p")
    case True
    then have below: "unat i < unat (m_num_threads p)"
      by (simp add: word_less_nat_alt)
    moreover have "unat (m_num_threads p) < 2 ^ LENGTH(64)"
      by (rule unsigned_less)
    ultimately have step: "unat (i + 1) = Suc (unat i)"
      by (rule unat_succ_below)
    let ?t = "Thread i (length (spawned p))"
    from "1.IH" [OF True] obtain ts where ts:
      "m_threads (start_loop (i + 1) (emplace_back i p)) = (m_threads p @ [?t]) @ ts"
      "history (start_loop (i + 1) (emplace_back i p)) = (history p @ [Spawn ?t]) @ map Spawn ts"
      "length ts = unat (m_num_threads p) - Suc (unat i)"
      "map captured_i ts = map of_nat [Suc (unat i)..<unat (m_num_threads p)]"
      by (auto simp: step spawned_def)
    have unfold: "start_loop i p = start_loop (i + 1) (emplace_back i p)"
      using True by (subst start_loop.simps) simp
    have "[unat i..<unat (m_num_threads p)] = unat i # [Suc (unat i)..<unat (m_num_threads p)]"
      using below by (simp add: upt_conv_Cons)
    then show ?thesis
      using ts below unfolding unfold
      by (intro exI [of _ "?t # ts"]) simp
  next
    case False
    then have "unat (m_num_threads p) \<le> unat i"
      by (simp add: word_less_nat_alt)
    with False show ?thesis
      by (subst (1 2) start_loop.simps) simp
  qed
qed

lemma unat_size_threads:
  "length (m_threads p) < 2 ^ 64 \<Longrightarrow> unat (size_threads p) = length (m_threads p)"
  by (simp add: size_threads_def unat_of_nat take_bit_nat_eq_self)

lemma start_threads_result:
  fixes p :: "'task ThreadPool"
  assumes "length (m_threads p) < 2 ^ 64"
  shows "\<exists>ts. m_num_threads (start_threads num p) = m_num_threads p + num \<and>
    m_task_queue (start_threads num p) = m_task_queue p \<and>
    m_threads (start_threads num p) = m_threads p @ ts \<and>
    history (start_threads num p) = history p @ Store_num_threads Caller # map Spawn ts \<and>
    length ts = unat (m_num_threads p + num) - length (m_threads p) \<and>
    map captured_i ts = map of_nat [length (m_threads p)..<unat (m_num_threads p + num)]"
proof -
  let ?q = "store_num_threads Caller (m_num_threads p + num) p"
  have size: "unat (size_threads ?q) = length (m_threads p)"
    using assms by (simp add: unat_size_threads)
  from start_loop_spawns [of "size_threads ?q" ?q] show ?thesis
    by (simp add: start_threads_def Let_def size)
qed

text \<open>A pool of three workers, for the examples.\<close>

lemma example_pool:
  "(ThreadPool 8 3 False :: nat ThreadPool) =
     \<lparr>m_num_threads = 3, m_threads = [Thread 0 0, Thread 1 1, Thread 2 2], m_task_queue = [],
      history = [Store_num_threads Caller, Spawn (Thread 0 0), Spawn (Thread 1 1), Spawn (Thread 2 2)]\<rparr>"
  by (simp add: ThreadPool_def start_threads_def start_loop.simps empty_pool_def
      store_num_threads_def size_threads_def emplace_back_def spawned_def Let_def emit_def)

text \<open>A pool of two workers, and the same pool after \<^verbatim>\<open>start_threads(SIZE_MAX)\<close>.\<close>

lemma example_pool_2:
  "(ThreadPool 8 2 False :: nat ThreadPool) =
     \<lparr>m_num_threads = 2, m_threads = [Thread 0 0, Thread 1 1], m_task_queue = [],
      history = [Store_num_threads Caller, Spawn (Thread 0 0), Spawn (Thread 1 1)]\<rparr>"
  by (simp add: ThreadPool_def start_threads_def start_loop.simps empty_pool_def
      store_num_threads_def size_threads_def emplace_back_def spawned_def Let_def emit_def)

lemma example_pool_2_wrapped:
  "start_threads 18446744073709551615 (ThreadPool 8 2 False :: nat ThreadPool) =
     \<lparr>m_num_threads = 1, m_threads = [Thread 0 0, Thread 1 1], m_task_queue = [],
      history = [Store_num_threads Caller, Spawn (Thread 0 0), Spawn (Thread 1 1),
        Store_num_threads Caller]\<rparr>"
  by (simp add: example_pool_2 start_threads_def start_loop.simps
      store_num_threads_def size_threads_def emit_def Let_def)

subsection \<open>The loop of \<^verbatim>\<open>shutdown_threads\<close>\<close>

lemma take_butlast_step:
  assumes "Suc d \<le> length xs"
  shows "take (length xs - Suc d) (butlast xs) = take (length xs - Suc d) xs"
  using assms by (simp add: take_butlast)

lemma drop_butlast_step:
  assumes "Suc d \<le> length xs"
  shows "last xs # rev (drop (length xs - Suc d) (butlast xs)) = rev (drop (length xs - Suc d) xs)"
proof -
  from assms obtain ys y where xs: "xs = ys @ [y]"
    by (cases xs rule: rev_cases) auto
  with assms show ?thesis
    by simp
qed

lemma join_loop_closes:
  fixes p :: "'task ThreadPool"
  assumes "unat k < 2 ^ 32" and "unat i \<le> unat k" and "unat k - unat i \<le> length (m_threads p)"
  shows "\<exists>p'. join_loop i k p = Inr p' \<and>
    m_num_threads p' = m_num_threads p \<and>
    m_task_queue p' = m_task_queue p \<and>
    m_threads p' = take (length (m_threads p) - (unat k - unat i)) (m_threads p) \<and>
    history p' = history p @
      map Join (rev (drop (length (m_threads p) - (unat k - unat i)) (m_threads p)))"
  using assms
proof (induction "unat k - unat i" arbitrary: i p)
  case 0
  then have "\<not> ucast i < k"
    by (simp add: counter_less)
  with 0 show ?case
    by (subst join_loop.simps) simp
next
  case (Suc d)
  then have below: "unat i < unat k"
    by linarith
  have step: "unat (i + 1) = Suc (unat i)"
    using below by (rule unat_succ_below) (use Suc.prems in simp)
  have enough: "Suc d \<le> length (m_threads p)"
    using Suc.prems Suc.hyps by simp
  then have nonempty: "m_threads p \<noteq> []"
    by auto
  have d: "d = unat k - unat (i + 1)"
    using Suc.hyps step by linarith
  let ?q = "pop_back (join_back p)"
  have "\<exists>p'. join_loop (i + 1) k ?q = Inr p' \<and>
    m_num_threads p' = m_num_threads ?q \<and>
    m_task_queue p' = m_task_queue ?q \<and>
    m_threads p' = take (length (m_threads ?q) - (unat k - unat (i + 1))) (m_threads ?q) \<and>
    history p' = history ?q @
      map Join (rev (drop (length (m_threads ?q) - (unat k - unat (i + 1))) (m_threads ?q)))"
    using Suc.prems step below enough d by (intro Suc.hyps(1)) simp_all
  then obtain p' where p': "join_loop (i + 1) k ?q = Inr p'"
    "m_num_threads p' = m_num_threads p" "m_task_queue p' = m_task_queue p"
    "m_threads p' = take (length (m_threads p) - Suc d) (butlast (m_threads p))"
    "history p' = history p @ Join (last (m_threads p)) #
       map Join (rev (drop (length (m_threads p) - Suc d) (butlast (m_threads p))))"
    using d [symmetric] by auto
  have "join_loop i k p = join_loop (i + 1) k ?q"
    using below nonempty by (subst join_loop.simps) (simp add: counter_less)
  with p' show ?case
    using enough Suc.hyps(2) [symmetric]
    by (simp add: take_butlast_step drop_butlast_step [symmetric])
qed

section \<open>Shrinking\<close>

lemma shutdown_threads_result:
  fixes p :: "'task ThreadPool"
  assumes "unat (m_num_threads p) \<le> length (m_threads p)"
    and "unat (min num (m_num_threads p)) < 2 ^ 32"
  shows "\<exists>p'. shutdown_threads num p = Inr p' \<and>
    m_num_threads p' = m_num_threads p - min num (m_num_threads p) \<and>
    m_task_queue p' = m_task_queue p \<and>
    m_threads p' =
      take (length (m_threads p) - unat (min num (m_num_threads p))) (m_threads p) \<and>
    history p' = history p @
      [Acquire Caller, Store_num_threads Caller, Release Caller, Notify_all Worker_condition] @
      map Join (rev (drop (length (m_threads p) - unat (min num (m_num_threads p))) (m_threads p)))"
proof -
  let ?k = "min num (m_num_threads p)"
  let ?q = "notify_all Worker_condition (unlock Caller
     (store_num_threads Caller (m_num_threads p - ?k) (lock Caller p)))"
  have "unat ?k \<le> unat (m_num_threads p)"
    by (simp add: word_le_nat_alt [symmetric])
  with assms have "unat ?k - unat (0 :: unsigned_int) \<le> length (m_threads ?q)"
    by simp
  with assms(2) have "\<exists>p'. join_loop 0 ?k ?q = Inr p' \<and>
    m_num_threads p' = m_num_threads ?q \<and>
    m_task_queue p' = m_task_queue ?q \<and>
    m_threads p' = take (length (m_threads ?q) - (unat ?k - unat (0 :: unsigned_int))) (m_threads ?q) \<and>
    history p' = history ?q @
      map Join (rev (drop (length (m_threads ?q) - (unat ?k - unat (0 :: unsigned_int))) (m_threads ?q)))"
    by (intro join_loop_closes) simp_all
  then show ?thesis
    by (simp add: shutdown_threads_def Let_def)
qed

subsection \<open>The states of a pool\<close>

text \<open>When \<^verbatim>\<open>num_to_close\<close> is \<open>2^32\<close> or more, the \<^verbatim>\<open>unsigned int\<close> counter never reaches
  it: the loop empties the vector and then calls \<^verbatim>\<open>back()\<close> on it.\<close>

lemma join_loop_counter_wraps:
  "2 ^ 32 \<le> unat k \<Longrightarrow> join_loop i k p = Inl Back_of_empty_vector"
proof (induction i k p rule: join_loop.induct)
  case (1 i num_to_close p)
  have "unat i < 2 ^ 32"
    using unsigned_less [of i] by simp
  with "1.prems" have below: "ucast i < num_to_close"
    by (simp add: counter_less)
  show ?case
  proof (cases "m_threads p = []")
    case True
    with below show ?thesis
      by (subst join_loop.simps) simp
  next
    case False
    with below "1.IH" "1.prems" show ?thesis
      by (subst join_loop.simps) simp
  qed
qed

lemma owns_enough_start_threads:
  assumes "owns_enough p"
  shows "owns_enough (start_threads num p)"
proof -
  from assms have small: "length (m_threads p) < 2 ^ 64"
    by (simp add: owns_enough_def)
  have "unat (m_num_threads p + num) < 2 ^ 64"
    using unsigned_less [of "m_num_threads p + num"] by simp
  with start_threads_result [OF small, of num] small show ?thesis
    by (auto simp: owns_enough_def)
qed

lemma owns_enough_shutdown_threads:
  assumes "owns_enough p" and "shutdown_threads num p = Inr p'"
  shows "owns_enough p'"
proof (cases "unat (min num (m_num_threads p)) < 2 ^ 32")
  case True
  from assms(1) have h: "unat (m_num_threads p) \<le> length (m_threads p)"
    by (simp add: owns_enough_def)
  have "min num (m_num_threads p) \<le> m_num_threads p"
    by simp
  then have "unat (m_num_threads p - min num (m_num_threads p))
      = unat (m_num_threads p) - unat (min num (m_num_threads p))"
    by (rule unat_sub)
  with shutdown_threads_result [OF h True] assms show ?thesis
    by (auto simp: owns_enough_def)
next
  case False
  then have "join_loop 0 (min num (m_num_threads p)) q = Inl Back_of_empty_vector" for q :: "'a ThreadPool"
    by (intro join_loop_counter_wraps) simp
  with assms(2) show ?thesis
    by (simp add: shutdown_threads_def Let_def)
qed

lemma owns_enough_perform:
  assumes "owns_enough p" and "perform c p = Inr p'"
  shows "owns_enough p'"
proof (cases c)
  case (Start_threads num)
  with assms show ?thesis
    by (auto simp: owns_enough_start_threads)
next
  case (Shutdown_threads num)
  with assms show ?thesis
    by (auto simp: owns_enough_shutdown_threads)
next
  case (Set_n_threads num)
  with assms show ?thesis
    by (auto simp: set_n_threads_def owns_enough_start_threads owns_enough_shutdown_threads
        split: if_splits)
next
  case Flush_queue
  with assms show ?thesis
    by (auto simp: owns_enough_def flush_queue_def)
qed

lemma owns_enough_perform_all:
  assumes "owns_enough p" and "perform_all cs p = Inr p'"
  shows "owns_enough p'"
  using assms
proof (induction cs arbitrary: p)
  case Nil
  then show ?case
    by simp
next
  case (Cons c cs)
  then show ?case
    by (cases "perform c p") (auto intro: owns_enough_perform)
qed

lemma owns_enough_ThreadPool: "owns_enough (ThreadPool h n force)"
proof -
  have "owns_enough (empty_pool :: 'a ThreadPool)"
    by (simp add: owns_enough_def empty_pool_def)
  then show ?thesis
    by (simp add: ThreadPool_def Let_def owns_enough_start_threads)
qed

lemma indexed_start_threads:
  assumes "indexed p" and "length (m_threads p) < 2 ^ 64"
  shows "indexed (start_threads num p)"
proof -
  let ?n = "length (m_threads p)" and ?m = "unat (m_num_threads p + num)"
  from start_threads_result [OF assms(2), of num] obtain ts where ts:
    "m_threads (start_threads num p) = m_threads p @ ts"
    "length ts = ?m - ?n"
    "map captured_i ts = map of_nat [?n..<?m]"
    by blast
  have "[0..<?n + (?m - ?n)] = [0..<?n] @ [?n..<?m]"
  proof (cases "?n \<le> ?m")
    case True
    then have "[0..<?n + (?m - ?n)] = [0..<?n] @ [?n..<?n + (?m - ?n)]"
      by (intro upt_add_eq_append) simp
    with True show ?thesis
      by simp
  next
    case False
    then show ?thesis
      by simp
  qed
  with ts assms(1) show ?thesis
    by (simp add: indexed_def)
qed

lemma indexed_nth:
  assumes "indexed p" and "j < length (m_threads p)"
  shows "captured_i (m_threads p ! j) = of_nat j"
proof -
  have "captured_i (m_threads p ! j) = map captured_i (m_threads p) ! j"
    using assms(2) by simp
  also have "\<dots> = of_nat j"
    using assms by (simp add: indexed_def)
  finally show ?thesis .
qed

lemma indexed_ThreadPool: "indexed (ThreadPool h n force)"
proof -
  have "indexed (empty_pool :: 'a ThreadPool)"
    by (simp add: indexed_def empty_pool_def)
  then show ?thesis
    by (simp add: ThreadPool_def Let_def indexed_start_threads empty_pool_def)
qed

text \<open>The threads that \<^verbatim>\<open>shutdown_threads\<close> joins are those whose captured index is
  no longer below the target count, the threads it keeps are those whose index still
  is: the joined workers are the ones that leave their loop.\<close>

lemma shutdown_threads_retires_highest_indices:
  fixes p :: "'task ThreadPool"
  assumes "indexed p" and count: "length (m_threads p) = unat (m_num_threads p)"
    and "unat (min n (m_num_threads p)) < 2 ^ 32"
  shows "\<exists>p'. shutdown_threads n p = Inr p' \<and> indexed p' \<and>
    (\<forall>t \<in> set (m_threads p'). captured_i t < m_num_threads p') \<and>
    (\<forall>t \<in> set (drop (length (joined p)) (joined p')). m_num_threads p' \<le> captured_i t)"
proof -
  let ?k = "min n (m_num_threads p)"
  let ?ts = "m_threads p"
  let ?m = "length ?ts - unat ?k"
  from count have h: "unat (m_num_threads p) \<le> length ?ts"
    by simp
  from shutdown_threads_result [OF h assms(3)] obtain p' where p':
    "shutdown_threads n p = Inr p'"
    "m_num_threads p' = m_num_threads p - ?k"
    "m_threads p' = take ?m ?ts"
    "history p' = history p @
      [Acquire Caller, Store_num_threads Caller, Release Caller, Notify_all Worker_condition] @
      map Join (rev (drop ?m ?ts))"
    by blast
  have "?k \<le> m_num_threads p"
    by simp
  then have "unat (m_num_threads p - ?k) = unat (m_num_threads p) - unat ?k"
    by (rule unat_sub)
  with count p'(2) have target: "unat (m_num_threads p') = ?m"
    by simp
  have small: "length ?ts < 2 ^ 64"
    using count unsigned_less [of "m_num_threads p"] by simp
  have index: "unat (captured_i (?ts ! j)) = j" if "j < length ?ts" for j
  proof -
    from that small have "j < 2 ^ 64"
      by simp
    then show ?thesis
      using indexed_nth [OF assms(1) that] by (simp add: unat_of_nat take_bit_nat_eq_self)
  qed
  have kept: "captured_i t < m_num_threads p'" if "t \<in> set (take ?m ?ts)" for t
  proof -
    from that obtain j where "j < ?m" "j < length ?ts" "t = ?ts ! j"
      by (auto simp: in_set_conv_nth)
    with index [of j] target show ?thesis
      by (simp add: word_less_nat_alt)
  qed
  have retired: "m_num_threads p' \<le> captured_i t" if "t \<in> set (drop ?m ?ts)" for t
  proof -
    from that obtain j where "j < length ?ts - ?m" "t = ?ts ! (?m + j)"
      by (auto simp: in_set_conv_nth)
    with index [of "?m + j"] target show ?thesis
      by (simp add: word_le_nat_alt)
  qed
  have "map captured_i (take ?m ?ts) = take ?m (map captured_i ?ts)"
    by (simp add: take_map)
  also have "\<dots> = map of_nat (take ?m [0..<length ?ts])"
    using assms(1) by (simp add: indexed_def take_map)
  also have "take ?m [0..<length ?ts] = [0..<?m]"
    by (simp add: take_upt)
  finally have "map captured_i (take ?m ?ts) = map of_nat [0..<length (take ?m ?ts)]"
    by simp
  then have "indexed p'"
    by (simp add: indexed_def p'(3))
  moreover have "drop (length (joined p)) (joined p') = rev (drop ?m ?ts)"
    by (simp add: joined_def p'(4))
  ultimately show ?thesis
    using p'(1,3) kept retired by auto
qed

text \<open>
  Claim C1, as amended. A call \<^verbatim>\<open>shutdown_threads(n)\<close> on a pool with target count \<open>t\<close>
  returns, lowers the target count by exactly \<open>k = min n t\<close>, and joins exactly \<open>k\<close>
  workers: the last \<open>k\<close> of the vector, the most recently spawned one first. When
  \<open>n \<ge> t\<close> the target count becomes 0 and \<open>t\<close> workers are closed; these are all
  current workers if and only if the pool owns exactly \<open>t\<close> threads.
  The pool owns at least \<open>t\<close> threads, as every pool does that the constructor and
  the member functions produce (\<open>owns_enough_ThreadPool\<close>, \<open>owns_enough_perform_all\<close>),
  and \<open>k\<close> is within the range of the loop counter \<^verbatim>\<open>0u\<close>.
\<close>

theorem shutdown_threads_closes_last_spawned:
  fixes p :: "'task ThreadPool"
  assumes "unat (m_num_threads p) \<le> length (m_threads p)"
    and "unat (min n (m_num_threads p)) < 2 ^ 32"
  shows "\<exists>p'. shutdown_threads n p = Inr p' \<and>
    unat (m_num_threads p') + min (unat n) (unat (m_num_threads p)) = unat (m_num_threads p) \<and>
    m_threads p' = take (length (m_threads p) - min (unat n) (unat (m_num_threads p))) (m_threads p) \<and>
    joined p' = joined p @
      rev (drop (length (m_threads p) - min (unat n) (unat (m_num_threads p))) (m_threads p)) \<and>
    length (joined p') = length (joined p) + min (unat n) (unat (m_num_threads p)) \<and>
    (m_num_threads p \<le> n \<longrightarrow>
       m_num_threads p' = 0 \<and>
       length (m_threads p') = length (m_threads p) - unat (m_num_threads p) \<and>
       (m_threads p' = [] \<longleftrightarrow> length (m_threads p) = unat (m_num_threads p)))"
proof -
  let ?k = "min n (m_num_threads p)"
  have k: "unat ?k = min (unat n) (unat (m_num_threads p))"
    by (simp add: min_def word_le_nat_alt)
  from shutdown_threads_result [OF assms] obtain p' where p':
    "shutdown_threads n p = Inr p'"
    "m_num_threads p' = m_num_threads p - ?k"
    "m_threads p' = take (length (m_threads p) - unat ?k) (m_threads p)"
    "history p' = history p @
      [Acquire Caller, Store_num_threads Caller, Release Caller, Notify_all Worker_condition] @
      map Join (rev (drop (length (m_threads p) - unat ?k) (m_threads p)))"
    by blast
  have le: "?k \<le> m_num_threads p"
    by simp
  then have sub: "unat (m_num_threads p - ?k) = unat (m_num_threads p) - unat ?k"
    by (rule unat_sub)
  have "unat ?k \<le> unat (m_num_threads p)"
    using le by (simp only: word_le_nat_alt)
  with sub have count: "unat (m_num_threads p') + unat ?k = unat (m_num_threads p)"
    by (simp add: p'(2))
  have all: "m_num_threads p' = 0 \<and>
      length (m_threads p') = length (m_threads p) - unat (m_num_threads p) \<and>
      (m_threads p' = [] \<longleftrightarrow> length (m_threads p) = unat (m_num_threads p))"
    if "m_num_threads p \<le> n"
  proof -
    from that have "?k = m_num_threads p"
      by (rule min_absorb2)
    with p'(2,3) assms(1) show ?thesis
      by auto
  qed
  from p' count all show ?thesis
    using assms(1) by (simp add: joined_def k [symmetric])
qed

theorem shutdown_threads_closes_last_spawned_witness:
  "unat (m_num_threads (ThreadPool 8 3 False :: nat ThreadPool))
     \<le> length (m_threads (ThreadPool 8 3 False :: nat ThreadPool)) \<and>
   unat (min 5 (m_num_threads (ThreadPool 8 3 False :: nat ThreadPool))) < 2 ^ 32 \<and>
   m_num_threads (ThreadPool 8 3 False :: nat ThreadPool) \<le> 5 \<and>
   (\<exists>p'. shutdown_threads 5 (ThreadPool 8 3 False :: nat ThreadPool) = Inr p' \<and>
      m_num_threads p' = 0 \<and> m_threads p' = [] \<and>
      joined p' = [Thread 2 2, Thread 1 1, Thread 0 0])"
proof -
  let ?p = "ThreadPool 8 3 False :: nat ThreadPool"
  have h1: "unat (m_num_threads ?p) \<le> length (m_threads ?p)"
    by (simp add: example_pool)
  have h2: "unat (min 5 (m_num_threads ?p)) < 2 ^ 32"
    by (simp add: example_pool)
  have h3: "m_num_threads ?p \<le> 5"
    by (simp add: example_pool)
  from shutdown_threads_closes_last_spawned [OF h1 h2] h1 h2 h3 show ?thesis
    by (auto simp: example_pool joined_def)
qed

text \<open>
  The claim as stated fails in its last part: after \<^verbatim>\<open>start_threads(SIZE_MAX)\<close> on a pool
  of two workers the target count is 1 and the pool owns two threads;
  \<^verbatim>\<open>shutdown_threads(5)\<close>, with \<open>5 > 1\<close>, closes one worker and leaves the other in the
  vector.
\<close>

theorem shutdown_threads_keeps_worker_after_wrap_counterexample:
  "m_num_threads (start_threads 18446744073709551615 (ThreadPool 8 2 False :: nat ThreadPool)) = 1 \<and>
   m_threads (start_threads 18446744073709551615 (ThreadPool 8 2 False :: nat ThreadPool))
     = [Thread 0 0, Thread 1 1] \<and>
   shutdown_threads 5 (start_threads 18446744073709551615 (ThreadPool 8 2 False :: nat ThreadPool)) =
     Inr \<lparr>m_num_threads = 0, m_threads = [Thread 0 0], m_task_queue = [],
       history = [Store_num_threads Caller, Spawn (Thread 0 0), Spawn (Thread 1 1),
         Store_num_threads Caller, Acquire Caller, Store_num_threads Caller, Release Caller,
         Notify_all Worker_condition, Join (Thread 1 1)]\<rparr>"
  by (simp only: example_pool_2_wrapped)
    (simp add: shutdown_threads_def lock_def unlock_def notify_all_def store_num_threads_def
      join_back_def pop_back_def emit_def Let_def join_loop.simps)

text \<open>
  Claim C10. \<^verbatim>\<open>shutdown_threads\<close> subtracts \<open>num_to_close = min num t\<close> from the target
  count \<open>t\<close>, so the unsigned subtraction does not wrap: the new target count is the
  integer \<open>t - min num t\<close>, and it is 0 whenever \<open>num \<ge> t\<close>. The call returns on every
  pool the member functions produce when \<open>num_to_close\<close> is within the range of the
  loop counter.
\<close>

theorem shutdown_threads_subtraction_never_wraps:
  fixes p :: "'task ThreadPool"
  assumes "unat (m_num_threads p) \<le> length (m_threads p)"
    and "unat (min num (m_num_threads p)) < 2 ^ 32"
  shows "\<exists>p'. shutdown_threads num p = Inr p' \<and>
    m_num_threads p' = m_num_threads p - min num (m_num_threads p) \<and>
    int (unat (m_num_threads p')) =
      int (unat (m_num_threads p)) - int (min (unat num) (unat (m_num_threads p))) \<and>
    (m_num_threads p \<le> num \<longrightarrow> m_num_threads p' = 0)"
proof -
  let ?k = "min num (m_num_threads p)"
  from shutdown_threads_result [OF assms] obtain p' where p':
    "shutdown_threads num p = Inr p'" "m_num_threads p' = m_num_threads p - ?k"
    by blast
  have k: "unat ?k = min (unat num) (unat (m_num_threads p))"
    by (simp add: min_def word_le_nat_alt)
  have "?k \<le> m_num_threads p"
    by simp
  then have "unat (m_num_threads p - ?k) = unat (m_num_threads p) - unat ?k"
    by (rule unat_sub)
  then have "int (unat (m_num_threads p')) =
      int (unat (m_num_threads p)) - int (min (unat num) (unat (m_num_threads p)))"
    by (simp add: p'(2) k)
  moreover have "m_num_threads p' = 0" if "m_num_threads p \<le> num"
    using that p'(2) by (simp add: min_absorb2)
  ultimately show ?thesis
    using p' by blast
qed

theorem shutdown_threads_subtraction_never_wraps_witness:
  "unat (m_num_threads (ThreadPool 8 3 False :: nat ThreadPool))
     \<le> length (m_threads (ThreadPool 8 3 False :: nat ThreadPool)) \<and>
   unat (min 18446744073709551615 (m_num_threads (ThreadPool 8 3 False :: nat ThreadPool))) < 2 ^ 32 \<and>
   (\<exists>p'. shutdown_threads 18446744073709551615 (ThreadPool 8 3 False :: nat ThreadPool) = Inr p' \<and>
      m_num_threads p' = 0)"
proof -
  let ?p = "ThreadPool 8 3 False :: nat ThreadPool"
  have h1: "unat (m_num_threads ?p) \<le> length (m_threads ?p)"
    by (simp add: example_pool)
  have h2: "unat (min 18446744073709551615 (m_num_threads ?p)) < 2 ^ 32"
    by (simp add: example_pool)
  from shutdown_threads_subtraction_never_wraps [OF h1 h2] h1 h2 show ?thesis
    by (auto simp: example_pool)
qed

section \<open>Construction\<close>

text \<open>
  Claim C8. For every requested count \<open>n\<close> and hardware concurrency \<open>h\<close>, the
  constructor with \<^verbatim>\<open>force = true\<close> spawns exactly \<open>n\<close> workers, and with
  \<^verbatim>\<open>force = false\<close> it spawns \<open>min n h\<close> workers. The threads of the new pool are the
  threads it spawned, and none has been joined.
\<close>

theorem constructor_spawns_requested_or_clamped:
  "length (m_threads (ThreadPool h n True :: 'task ThreadPool)) = unat n \<and>
   m_num_threads (ThreadPool h n True :: 'task ThreadPool) = n \<and>
   length (m_threads (ThreadPool h n False :: 'task ThreadPool)) = min (unat n) (unat h) \<and>
   unat (m_num_threads (ThreadPool h n False :: 'task ThreadPool)) = min (unat n) (unat h) \<and>
   spawned (ThreadPool h n force :: 'task ThreadPool)
     = m_threads (ThreadPool h n force :: 'task ThreadPool) \<and>
   joined (ThreadPool h n force :: 'task ThreadPool) = []"
proof -
  have clamp: "unat (min (ucast h) n :: size_t) = min (unat n) (unat h)"
    by (simp add: min_def word_le_nat_alt unat_ucast_counter)
  have empty: "length (m_threads (empty_pool :: 'task ThreadPool)) < 2 ^ 64"
    by (simp add: empty_pool_def)
  have *: "length (m_threads (start_threads k (empty_pool :: 'task ThreadPool))) = unat k \<and>
      m_num_threads (start_threads k (empty_pool :: 'task ThreadPool)) = k \<and>
      spawned (start_threads k (empty_pool :: 'task ThreadPool))
        = m_threads (start_threads k (empty_pool :: 'task ThreadPool)) \<and>
      joined (start_threads k (empty_pool :: 'task ThreadPool)) = []" for k
    using start_threads_result [OF empty, of k]
    by (auto simp: empty_pool_def spawned_def joined_def)
  show ?thesis
    using * [of n] * [of "min (ucast h) n"] by (cases force) (simp_all add: ThreadPool_def clamp)
qed

section \<open>Flushing\<close>

text \<open>
  Claim C9. \<^verbatim>\<open>flush_queue\<close> empties the task queue and leaves the target count and
  the vector of threads as they were; its only events are taking the mutex, the store
  to the queue and releasing the mutex. A task a worker has already taken out of the
  queue is held by that worker, not by the queue: the worker goes on as before.
\<close>

theorem flush_queue_empties_only_the_queue:
  "m_task_queue (flush_queue p) = [] \<and>
   m_num_threads (flush_queue p) = m_num_threads p \<and>
   m_threads (flush_queue p) = m_threads p \<and>
   history (flush_queue p) = history p @ [Acquire Caller, Store_task_queue Caller, Release Caller] \<and>
   worker_step i (Run_task task, flush_queue p) = Inr (Lock_mutex, flush_queue p)"
  by (simp add: flush_queue_def)

section \<open>Resizing\<close>

subsection \<open>Thread objects\<close>

lemma ledger_emit:
  assumes "ledger p" and "spawned_in [e] = []" and "joined_in [e] = []"
  shows "ledger (emit e p)"
  using assms by (simp add: ledger_def spawned_def joined_def)

lemma ledger_emplace_back:
  assumes "ledger p"
  shows "ledger (emplace_back i p)"
proof -
  let ?t = "Thread i (length (spawned p))"
  from assms have "?t \<notin> set (spawned p)"
    by (auto simp: ledger_def)
  with assms show ?thesis
    by (auto simp: ledger_def spawned_def joined_def less_Suc_eq)
qed

lemma ledger_start_loop: "ledger p \<Longrightarrow> ledger (start_loop i p)"
proof (induction i p rule: start_loop.induct)
  case (1 i p)
  then show ?case
    by (subst start_loop.simps) (simp add: ledger_emplace_back)
qed

lemma ledger_start_threads:
  assumes "ledger p"
  shows "ledger (start_threads num p)"
proof -
  have "ledger (store_num_threads Caller (m_num_threads p + num) p)"
    using assms by (simp add: ledger_def spawned_def joined_def)
  then show ?thesis
    by (simp add: start_threads_def Let_def ledger_start_loop)
qed

lemma ledger_flush_queue: "ledger p \<Longrightarrow> ledger (flush_queue p)"
  by (simp add: ledger_def spawned_def joined_def flush_queue_def)

lemma ledger_shutdown_threads:
  assumes "ledger p" and "shutdown_threads num p = Inr p'"
    and "unat (m_num_threads p) \<le> length (m_threads p)"
    and "unat (min num (m_num_threads p)) < 2 ^ 32"
  shows "ledger p'"
proof -
  let ?m = "length (m_threads p) - unat (min num (m_num_threads p))"
  from shutdown_threads_result [OF assms(3,4)] assms(2) have p':
    "m_threads p' = take ?m (m_threads p)"
    "history p' = history p @
      [Acquire Caller, Store_num_threads Caller, Release Caller, Notify_all Worker_condition] @
      map Join (rev (drop ?m (m_threads p)))"
    by auto
  have "mset (rev (drop ?m (m_threads p))) + mset (take ?m (m_threads p)) = mset (m_threads p)"
    by (metis add.commute append_take_drop_id mset_append mset_rev)
  with assms(1) p' show ?thesis
    by (simp add: ledger_def spawned_def joined_def add.assoc)
qed

subsection \<open>The number of threads and the target count\<close>

lemma start_threads_keeps_count:
  fixes p :: "'task ThreadPool"
  assumes "length (m_threads p) = unat (m_num_threads p)"
    and "unat (m_num_threads p) + unat num < 2 ^ 64"
  shows "length (m_threads (start_threads num p)) = unat (m_num_threads (start_threads num p)) \<and>
    m_num_threads (start_threads num p) = m_num_threads p + num"
proof -
  have small: "length (m_threads p) < 2 ^ 64"
    using assms(1) unsigned_less [of "m_num_threads p"] by simp
  from assms(2) have "unat (m_num_threads p + num) = unat (m_num_threads p) + unat num"
    by (simp add: unat_word_ariths)
  with start_threads_result [OF small, of num] assms(1) show ?thesis
    by auto
qed

lemma shutdown_threads_keeps_count:
  fixes p :: "'task ThreadPool"
  assumes "length (m_threads p) = unat (m_num_threads p)"
    and "unat (min num (m_num_threads p)) < 2 ^ 32"
  shows "\<exists>p'. shutdown_threads num p = Inr p' \<and>
    length (m_threads p') = unat (m_num_threads p') \<and>
    m_num_threads p' = m_num_threads p - min num (m_num_threads p) \<and>
    (ledger p \<longrightarrow> ledger p')"
proof -
  from assms have h: "unat (m_num_threads p) \<le> length (m_threads p)"
    by simp
  from shutdown_threads_result [OF h assms(2)] obtain p' where p':
    "shutdown_threads num p = Inr p'"
    "m_num_threads p' = m_num_threads p - min num (m_num_threads p)"
    "m_threads p' = take (length (m_threads p) - unat (min num (m_num_threads p))) (m_threads p)"
    by blast
  have "min num (m_num_threads p) \<le> m_num_threads p"
    by simp
  then have "unat (m_num_threads p - min num (m_num_threads p))
      = unat (m_num_threads p) - unat (min num (m_num_threads p))"
    by (rule unat_sub)
  with p' assms(1) have "length (m_threads p') = unat (m_num_threads p')"
    by simp
  with p' show ?thesis
    using ledger_shutdown_threads [OF _ p'(1) h assms(2)] by blast
qed

lemma set_n_threads_keeps_count:
  fixes p :: "'task ThreadPool"
  assumes "length (m_threads p) = unat (m_num_threads p)"
    and "unat (m_num_threads p) - unat num < 2 ^ 32"
  shows "\<exists>p'. set_n_threads num p = Inr p' \<and>
    length (m_threads p') = unat (m_num_threads p') \<and>
    m_num_threads p' = num \<and>
    (ledger p \<longrightarrow> ledger p')"
proof -
  consider (shrink) "num < m_num_threads p" | (grow) "m_num_threads p < num"
    | (same) "m_num_threads p = num"
    by (metis linorder_less_linear)
  then show ?thesis
  proof cases
    case shrink
    let ?d = "m_num_threads p - num"
    from shrink have le: "num \<le> m_num_threads p"
      by simp
    then have d: "unat ?d = unat (m_num_threads p) - unat num"
      by (rule unat_sub)
    have "?d \<le> m_num_threads p"
      using le by (simp add: word_le_nat_alt d)
    then have k: "min ?d (m_num_threads p) = ?d"
      by (rule min_absorb1)
    from assms(2) have "unat (min ?d (m_num_threads p)) < 2 ^ 32"
      by (simp add: k d)
    from shutdown_threads_keeps_count [OF assms(1) this] show ?thesis
      using shrink by (simp add: set_n_threads_def k)
  next
    case grow
    let ?d = "num - m_num_threads p"
    from grow have le: "m_num_threads p \<le> num"
      by simp
    then have "unat ?d = unat num - unat (m_num_threads p)"
      by (rule unat_sub)
    moreover have "unat (m_num_threads p) \<le> unat num"
      using le by (simp only: word_le_nat_alt)
    moreover have "unat num < 2 ^ 64"
      using unsigned_less [of num] by simp
    ultimately have "unat (m_num_threads p) + unat ?d < 2 ^ 64"
      by simp
    from start_threads_keeps_count [OF assms(1) this] show ?thesis
      using grow by (auto simp: set_n_threads_def ledger_start_threads dest: less_asym)
  next
    case same
    with assms(1) show ?thesis
      by (simp add: set_n_threads_def)
  qed
qed

lemma perform_keeps_count:
  fixes p :: "'task ThreadPool"
  assumes "length (m_threads p) = unat (m_num_threads p)" and "\<not> wraps c p"
  shows "\<exists>p'. perform c p = Inr p' \<and> length (m_threads p') = unat (m_num_threads p') \<and>
    (ledger p \<longrightarrow> ledger p')"
proof (cases c)
  case (Start_threads num)
  with assms show ?thesis
    using start_threads_keeps_count [OF assms(1), of num] by (simp add: ledger_start_threads)
next
  case (Shutdown_threads num)
  with assms show ?thesis
    using shutdown_threads_keeps_count [OF assms(1), of num] by auto
next
  case (Set_n_threads num)
  with assms show ?thesis
    using set_n_threads_keeps_count [OF assms(1), of num] by auto
next
  case Flush_queue
  with assms show ?thesis
    by (simp add: ledger_flush_queue) (simp add: flush_queue_def)
qed

lemma perform_all_keeps_count:
  fixes p :: "'task ThreadPool"
  assumes "never_wraps cs p" and "length (m_threads p) = unat (m_num_threads p)" and "ledger p"
  shows "\<exists>p'. perform_all cs p = Inr p' \<and> length (m_threads p') = unat (m_num_threads p') \<and>
    ledger p'"
  using assms
proof (induction cs arbitrary: p)
  case Nil
  then show ?case
    by simp
next
  case (Cons c cs)
  from Cons.prems have "\<not> wraps c p"
    by simp
  from perform_keeps_count [OF Cons.prems(2) this] Cons.prems(3) obtain q where q:
    "perform c p = Inr q" "length (m_threads q) = unat (m_num_threads q)" "ledger q"
    by blast
  with Cons.prems(1) have "never_wraps cs q"
    by simp
  from Cons.IH [OF this q(2,3)] q(1) show ?case
    by simp
qed

lemma wait_loop_result:
  "wait_loop qs p = Inr p' \<Longrightarrow>
     [] \<in> set qs \<and> m_task_queue p' = [] \<and> m_num_threads p' = m_num_threads p \<and>
     m_threads p' = m_threads p \<and> spawned p' = spawned p \<and> joined p' = joined p"
proof (induction qs arbitrary: p)
  case Nil
  then show ?case
    by simp
next
  case (Cons q qs)
  show ?case
  proof (cases "q = []")
    case True
    with Cons.prems show ?thesis
      by (auto simp: spawned_def joined_def)
  next
    case False
    with Cons.prems have "wait_loop qs (lock Caller (unlock Caller (p\<lparr>m_task_queue := q\<rparr>))) = Inr p'"
      by simp
    from Cons.IH [OF this] show ?thesis
      by (simp add: spawned_def joined_def)
  qed
qed

lemma wait_loop_returns: "[] \<in> set qs \<Longrightarrow> \<exists>p'. wait_loop qs p = Inr p'"
  by (induction qs arbitrary: p) (auto simp: Let_def)

text \<open>
  Claim C4, as amended. When \<^verbatim>\<open>m_threads.size() == m_num_threads\<close> holds before a call,
  it holds again when the call returns: for \<^verbatim>\<open>start_threads(n)\<close> if
  \<^verbatim>\<open>m_num_threads + n\<close> does not wrap around, for \<^verbatim>\<open>shutdown_threads(n)\<close> and
  \<^verbatim>\<open>set_n_threads(n)\<close> if the number of threads to close is within the range of the
  loop counter. After \<^verbatim>\<open>set_n_threads(n)\<close> both are \<open>n\<close>.
\<close>

theorem resizing_restores_thread_count:
  fixes p :: "'task ThreadPool"
  assumes "length (m_threads p) = unat (m_num_threads p)"
  shows "(unat (m_num_threads p) + unat n < 2 ^ 64 \<longrightarrow>
      length (m_threads (start_threads n p)) = unat (m_num_threads (start_threads n p)) \<and>
      m_num_threads (start_threads n p) = m_num_threads p + n) \<and>
    (unat (min n (m_num_threads p)) < 2 ^ 32 \<longrightarrow>
      (\<exists>p'. shutdown_threads n p = Inr p' \<and>
         length (m_threads p') = unat (m_num_threads p') \<and>
         m_num_threads p' = m_num_threads p - min n (m_num_threads p))) \<and>
    (unat (m_num_threads p) - unat n < 2 ^ 32 \<longrightarrow>
      (\<exists>p'. set_n_threads n p = Inr p' \<and>
         length (m_threads p') = unat (m_num_threads p') \<and> m_num_threads p' = n))"
  using start_threads_keeps_count [OF assms, of n]
    shutdown_threads_keeps_count [OF assms, of n]
    set_n_threads_keeps_count [OF assms, of n]
  by blast

theorem resizing_restores_thread_count_witness:
  "length (m_threads (ThreadPool 8 3 False :: nat ThreadPool))
     = unat (m_num_threads (ThreadPool 8 3 False :: nat ThreadPool)) \<and>
   unat (m_num_threads (ThreadPool 8 3 False :: nat ThreadPool)) + unat (1 :: size_t) < 2 ^ 64 \<and>
   unat (min 1 (m_num_threads (ThreadPool 8 3 False :: nat ThreadPool))) < 2 ^ 32 \<and>
   unat (m_num_threads (ThreadPool 8 3 False :: nat ThreadPool)) - unat (1 :: size_t) < 2 ^ 32 \<and>
   length (m_threads (start_threads 1 (ThreadPool 8 3 False :: nat ThreadPool))) = 4 \<and>
   m_num_threads (start_threads 1 (ThreadPool 8 3 False :: nat ThreadPool)) = 4 \<and>
   (\<exists>p'. shutdown_threads 1 (ThreadPool 8 3 False :: nat ThreadPool) = Inr p' \<and>
      length (m_threads p') = 2 \<and> m_num_threads p' = 2) \<and>
   (\<exists>p'. set_n_threads 1 (ThreadPool 8 3 False :: nat ThreadPool) = Inr p' \<and>
      length (m_threads p') = 1 \<and> m_num_threads p' = 1)"
proof -
  let ?p = "ThreadPool 8 3 False :: nat ThreadPool"
  have h: "length (m_threads ?p) = unat (m_num_threads ?p)"
    by (simp add: example_pool)
  from resizing_restores_thread_count [OF h, of 1] h show ?thesis
    by (auto simp: example_pool)
qed

text \<open>
  The claim as stated fails: on a pool of two workers \<^verbatim>\<open>start_threads(SIZE_MAX)\<close> wraps the
  target count to 1, spawns nothing and returns with two threads owned.
\<close>

theorem start_threads_wraps_counterexample:
  "length (m_threads (ThreadPool 8 2 False :: nat ThreadPool))
     = unat (m_num_threads (ThreadPool 8 2 False :: nat ThreadPool)) \<and>
   length (m_threads (start_threads 18446744073709551615 (ThreadPool 8 2 False :: nat ThreadPool)))
     = 2 \<and>
   unat (m_num_threads (start_threads 18446744073709551615 (ThreadPool 8 2 False :: nat ThreadPool)))
     = 1"
  by (simp add: example_pool_2_wrapped) (simp add: example_pool_2)

section \<open>Destruction\<close>

lemma ledger_empty_pool: "ledger empty_pool"
  by (simp add: ledger_def empty_pool_def spawned_def joined_def)

lemma ThreadPool_count:
  "length (m_threads (ThreadPool h n force :: 'task ThreadPool))
     = unat (m_num_threads (ThreadPool h n force :: 'task ThreadPool)) \<and>
   ledger (ThreadPool h n force :: 'task ThreadPool)"
proof -
  have "length (m_threads (start_threads k (empty_pool :: 'task ThreadPool)))
      = unat (m_num_threads (start_threads k (empty_pool :: 'task ThreadPool)))" for k
  proof -
    have "unat k < 2 ^ 64"
      using unsigned_less [of k] by simp
    then show ?thesis
      by (intro start_threads_keeps_count [THEN conjunct1]) (simp_all add: empty_pool_def)
  qed
  then show ?thesis
    by (simp add: ThreadPool_def Let_def ledger_start_threads ledger_empty_pool)
qed

lemma destructor_joins_all:
  fixes p :: "'task ThreadPool"
  assumes count: "length (m_threads p) = unat (m_num_threads p)" and "ledger p"
    and small: "length (m_threads p) < 2 ^ 32" and drained: "[] \<in> set qs"
  shows "\<exists>p'. ThreadPool_destructor qs p = Inr p' \<and> m_threads p' = [] \<and>
    mset (joined p') = mset (spawned p') \<and> distinct (joined p')"
proof -
  from wait_loop_returns [OF drained] obtain p1 where
    ret: "wait_until_queue_completed qs p = Inr p1"
    unfolding wait_until_queue_completed_def by blast
  then have "wait_loop qs (lock Caller p) = Inr p1"
    by (simp add: wait_until_queue_completed_def)
  from wait_loop_result [OF this] have p1: "m_num_threads p1 = m_num_threads p"
    "m_threads p1 = m_threads p" "spawned p1 = spawned p" "joined p1 = joined p"
    by (simp_all add: spawned_def joined_def)
  with assms have count1: "length (m_threads p1) = unat (m_num_threads p1)" and ledger1: "ledger p1"
    by (simp_all add: ledger_def)
  have size: "size_threads p1 = m_num_threads p1"
    by (simp add: size_threads_def count1)
  from small p1 count have "unat (min (size_threads p1) (m_num_threads p1)) < 2 ^ 32"
    by (simp add: size)
  from shutdown_threads_keeps_count [OF count1 this] ledger1 obtain p' where p':
    "shutdown_threads (size_threads p1) p1 = Inr p'"
    "length (m_threads p') = unat (m_num_threads p')"
    "m_num_threads p' = 0" "ledger p'"
    by (auto simp: size)
  then have none: "m_threads p' = []"
    by simp
  with p'(4) have "mset (joined p') = mset (spawned p')" and "distinct (spawned p')"
    by (simp_all add: ledger_def)
  then have "distinct (joined p')"
    using mset_eq_imp_distinct_iff [of "joined p'" "spawned p'"] by simp
  with ret p'(1) none \<open>mset (joined p') = mset (spawned p')\<close> show ?thesis
    by (simp add: ThreadPool_destructor_def destroy_threads_def)
qed

text \<open>
  Claim C7, as amended. Take a new pool and any sequence of calls of \<^verbatim>\<open>start_threads\<close>,
  \<^verbatim>\<open>shutdown_threads\<close>, \<^verbatim>\<open>set_n_threads\<close> and \<^verbatim>\<open>flush_queue\<close> in which no counter
  wraps around. Every call returns. If the pool is then destroyed, the wait of the
  destructor finds the queue empty at some point, and there are fewer than \<open>2^32\<close>
  threads to join, the destructor returns: no thread is left in the vector when the
  members are destroyed, and the threads joined over the whole life of the pool are the
  threads spawned, each one once.
\<close>

theorem every_spawned_thread_joined_once:
  fixes qs :: "'task list list"
  assumes "never_wraps cs (ThreadPool h n force :: 'task ThreadPool)" and "[] \<in> set qs"
  shows "\<exists>p. perform_all cs (ThreadPool h n force :: 'task ThreadPool) = Inr p \<and>
    (length (m_threads p) < 2 ^ 32 \<longrightarrow>
      (\<exists>p'. ThreadPool_destructor qs p = Inr p' \<and> m_threads p' = [] \<and>
         mset (joined p') = mset (spawned p') \<and> distinct (joined p')))"
proof -
  from perform_all_keeps_count [OF assms(1)] ThreadPool_count [of h n force]
  obtain p where p: "perform_all cs (ThreadPool h n force :: 'task ThreadPool) = Inr p"
    "length (m_threads p) = unat (m_num_threads p)" "ledger p"
    by blast
  from destructor_joins_all [OF p(2,3) _ assms(2)] p(1) show ?thesis
    by blast
qed

text \<open>A pool that grows, shrinks to nothing and is resized to two workers.\<close>

lemmas pool_evals = ThreadPool_def start_threads_def empty_pool_def
  store_num_threads_def size_threads_def emplace_back_def spawned_def Let_def emit_def
  shutdown_threads_def set_n_threads_def lock_def unlock_def notify_all_def
  join_back_def pop_back_def

lemma example_lifetime_0:
  "(ThreadPool 8 1 False :: nat ThreadPool) =
     \<lparr>m_num_threads = 1, m_threads = [Thread 0 0], m_task_queue = [],
      history = [Store_num_threads Caller, Spawn (Thread 0 0)]\<rparr>"
  by (simp add: pool_evals start_loop.simps)

lemma example_lifetime_1:
  "start_threads 1
     \<lparr>m_num_threads = 1, m_threads = [Thread 0 0], m_task_queue = ([] :: nat list),
      history = [Store_num_threads Caller, Spawn (Thread 0 0)]\<rparr> =
   \<lparr>m_num_threads = 2, m_threads = [Thread 0 0, Thread 1 1], m_task_queue = [],
    history = [Store_num_threads Caller, Spawn (Thread 0 0), Store_num_threads Caller,
      Spawn (Thread 1 1)]\<rparr>"
  by (simp add: pool_evals start_loop.simps)

lemma example_lifetime_2:
  "shutdown_threads 2
     \<lparr>m_num_threads = 2, m_threads = [Thread 0 0, Thread 1 1], m_task_queue = ([] :: nat list),
      history = [Store_num_threads Caller, Spawn (Thread 0 0), Store_num_threads Caller,
        Spawn (Thread 1 1)]\<rparr> =
   Inr \<lparr>m_num_threads = 0, m_threads = [], m_task_queue = [],
      history = [Store_num_threads Caller, Spawn (Thread 0 0), Store_num_threads Caller,
        Spawn (Thread 1 1), Acquire Caller, Store_num_threads Caller, Release Caller,
        Notify_all Worker_condition, Join (Thread 1 1), Join (Thread 0 0)]\<rparr>"
  by (simp add: pool_evals join_loop.simps)

lemma example_lifetime_3:
  "set_n_threads 2
     \<lparr>m_num_threads = 0, m_threads = [], m_task_queue = ([] :: nat list),
      history = [Store_num_threads Caller, Spawn (Thread 0 0), Store_num_threads Caller,
        Spawn (Thread 1 1), Acquire Caller, Store_num_threads Caller, Release Caller,
        Notify_all Worker_condition, Join (Thread 1 1), Join (Thread 0 0)]\<rparr> =
   Inr \<lparr>m_num_threads = 2, m_threads = [Thread 0 2, Thread 1 3], m_task_queue = [],
      history = [Store_num_threads Caller, Spawn (Thread 0 0), Store_num_threads Caller,
        Spawn (Thread 1 1), Acquire Caller, Store_num_threads Caller, Release Caller,
        Notify_all Worker_condition, Join (Thread 1 1), Join (Thread 0 0),
        Store_num_threads Caller, Spawn (Thread 0 2), Spawn (Thread 1 3)]\<rparr>"
  by (simp add: pool_evals start_loop.simps)

lemmas example_lifetime =
  example_lifetime_0 example_lifetime_1 example_lifetime_2 example_lifetime_3

theorem every_spawned_thread_joined_once_witness:
  "never_wraps [Start_threads 1, Shutdown_threads 2, Set_n_threads 2]
     (ThreadPool 8 1 False :: nat ThreadPool) \<and>
   [] \<in> set [[7], [] :: nat list] \<and>
   (\<exists>p. perform_all [Start_threads 1, Shutdown_threads 2, Set_n_threads 2]
          (ThreadPool 8 1 False :: nat ThreadPool) = Inr p \<and>
        length (m_threads p) < 2 ^ 32 \<and>
        (\<exists>p'. ThreadPool_destructor [[7], []] p = Inr p' \<and> m_threads p' = [] \<and>
           mset (joined p') = mset (spawned p') \<and> distinct (joined p')))"
proof -
  let ?cs = "[Start_threads 1, Shutdown_threads 2, Set_n_threads 2]"
  let ?p = "ThreadPool 8 1 False :: nat ThreadPool"
  have h1: "never_wraps ?cs ?p"
    by (simp only: never_wraps.simps perform.simps example_lifetime sum.case) simp
  have h2: "[] \<in> set [[7], [] :: nat list]"
    by simp
  have "\<exists>p. perform_all ?cs ?p = Inr p \<and> length (m_threads p) < 2 ^ 32"
    by (simp only: perform_all.simps perform.simps example_lifetime sum.case) simp
  with every_spawned_thread_joined_once [OF h1 h2] h1 h2 show ?thesis
    by auto
qed

text \<open>
  The claim as stated fails: after \<^verbatim>\<open>start_threads(SIZE_MAX)\<close> on a pool of two workers
  the target count is 1 and the destructor closes \<open>min 2 1 = 1\<close> thread. The thread
  with index 0, spawned and never joined, is still in the vector when the members are
  destroyed, and the destructor ends in \<^verbatim>\<open>std::terminate\<close>.
\<close>

theorem destructor_leaks_after_wrap_counterexample:
  "ThreadPool_destructor [[]]
     (start_threads 18446744073709551615 (ThreadPool 8 2 False :: nat ThreadPool)) =
   Inl (Joinable_thread_destroyed [Thread 0 0])"
  by (simp only: example_pool_2_wrapped)
    (simp add: ThreadPool_destructor_def wait_until_queue_completed_def destroy_threads_def
      pool_evals join_loop.simps)

section \<open>The worker loop\<close>

lemma holder_append [simp]: "holder h (xs @ ys) = holder (holder h xs) ys"
  by (induction h xs rule: holder.induct) simp_all

lemma worker_step_mutex:
  assumes "worker_step i (c, p) = Inr (c', p')"
    and "holder h (history p) = (if inside_lock c then Some (Worker i) else None)"
  shows "holder h (history p') = (if inside_lock c' then Some (Worker i) else None)"
  using assms by (cases c) (auto split: if_splits list.splits)

lemma worker_step_Exited:
  "(c \<noteq> Exited \<and> worker_step i (c, p) = Inr (Exited, p')) \<longleftrightarrow>
   (c = Check_exit \<and> m_num_threads p \<le> i \<and> p' = unlock (Worker i) p)"
  by (cases c) (auto split: list.splits)

lemma worker_step_stays:
  assumes "i < m_num_threads p" and "c \<noteq> Exited" and "worker_step i (c, p) = Inr (c', p')"
  shows "c' \<noteq> Exited"
  using assms by (cases c) (auto split: if_splits list.splits)

lemma worker_steps_stay:
  assumes "\<forall>q \<in> set ps. i < m_num_threads q" and "c \<noteq> Exited"
  shows "worker_steps i ps c \<noteq> Inr Exited"
  using assms
proof (induction ps arbitrary: c)
  case Nil
  then show ?case
    by simp
next
  case (Cons p ps)
  show ?case
  proof (cases "worker_step i (c, p)")
    case (Inl e)
    then show ?thesis
      by simp
  next
    case (Inr s)
    obtain c' p' where s: "s = (c', p')"
      by (cases s)
    from Cons.prems Inr s have "c' \<noteq> Exited"
      by (intro worker_step_stays [of i p c c' p']) simp_all
    with Cons.IH [of c'] Cons.prems(1) Inr s show ?thesis
      by simp
  qed
qed

lemma worker_steps_Exited [simp]: "worker_steps i ps Exited = Inr Exited"
  by (induction ps) simp_all

lemma worker_steps_retired:
  assumes "\<forall>q \<in> set (p1 # p2 # p3 # p4 # p5 # ps). m_num_threads q \<le> i"
  shows "worker_steps i (p1 # p2 # p3 # p4 # p5 # ps) c = Inr Exited \<or>
    c = Take_task \<and> worker_steps i (p1 # p2 # p3 # p4 # p5 # ps) c = Inl Front_of_empty_deque"
proof -
  from assms have le: "m_num_threads p1 \<le> i" "m_num_threads p2 \<le> i"
    "m_num_threads p3 \<le> i" "m_num_threads p4 \<le> i" "m_num_threads p5 \<le> i"
    by simp_all
  then have "\<not> i < m_num_threads p1" "\<not> i < m_num_threads p2"
    "\<not> i < m_num_threads p3" "\<not> i < m_num_threads p4" "\<not> i < m_num_threads p5"
    by (simp_all only: not_less)
  with le show ?thesis
    by (cases c) (simp_all split: list.splits)
qed

text \<open>
  Claim C2. A worker that captured \<open>i\<close> leaves its loop in exactly one way: by the step
  from \<open>Check_exit\<close>, taken if and only if it finds \<^verbatim>\<open>i >= m_num_threads\<close> there; the
  step releases the mutex. The worker holds the mutex at that point: by the calls it
  makes on the mutex, it holds it exactly at \<open>Look_for_work\<close>, \<open>Check_exit\<close> and
  \<open>Take_task\<close>. A worker that finds \<^verbatim>\<open>i >= m_num_threads\<close> in the condition of the wait
  loop does not wait but goes on to \<open>Check_exit\<close>, and a worker that finds
  \<^verbatim>\<open>i >= m_num_threads\<close> in every state has left the loop after five steps at most,
  wherever it starts (a worker standing at \<open>Take_task\<close> before an empty queue apart).
  A worker that finds \<^verbatim>\<open>i < m_num_threads\<close> in every state in which it takes a step
  never leaves the loop, whatever the other threads do to the pool in between.
\<close>

theorem worker_exits_only_on_index_comparison:
  "((c \<noteq> Exited \<and> worker_step i (c, p) = Inr (Exited, p')) \<longleftrightarrow>
      (c = Check_exit \<and> m_num_threads p \<le> i \<and> p' = unlock (Worker i) p)) \<and>
   (worker_step i (c, p) = Inr (c', q) \<and>
    holder h (history p) = (if inside_lock c then Some (Worker i) else None) \<longrightarrow>
      holder h (history q) = (if inside_lock c' then Some (Worker i) else None)) \<and>
   (c \<noteq> Exited \<and> worker_step i (c, p) = Inr (Exited, p') \<and>
    holder h (history p) = (if inside_lock c then Some (Worker i) else None) \<longrightarrow>
      holder h (history p) = Some (Worker i) \<and> holder h (history p') = None) \<and>
   (m_num_threads p \<le> i \<longrightarrow> worker_step i (Look_for_work, p) = Inr (Check_exit, p)) \<and>
   ((\<forall>q \<in> set (p1 # p2 # p3 # p4 # p5 # ps). m_num_threads q \<le> i) \<longrightarrow>
      worker_steps i (p1 # p2 # p3 # p4 # p5 # ps) c = Inr Exited \<or>
      c = Take_task \<and>
      worker_steps i (p1 # p2 # p3 # p4 # p5 # ps) c = Inl Front_of_empty_deque) \<and>
   ((\<forall>q \<in> set qs. i < m_num_threads q) \<and> c \<noteq> Exited \<longrightarrow>
      worker_steps i qs c \<noteq> Inr Exited)"
proof -
  have exit: "(c \<noteq> Exited \<and> worker_step i (c, p) = Inr (Exited, p')) \<longleftrightarrow>
      (c = Check_exit \<and> m_num_threads p \<le> i \<and> p' = unlock (Worker i) p)"
    by (rule worker_step_Exited)
  have mutex: "holder h (history q) = (if inside_lock c' then Some (Worker i) else None)"
    if "worker_step i (c, p) = Inr (c', q)"
      and "holder h (history p) = (if inside_lock c then Some (Worker i) else None)"
    using that by (rule worker_step_mutex)
  have held: "holder h (history p) = Some (Worker i) \<and> holder h (history p') = None"
    if "c \<noteq> Exited" and "worker_step i (c, p) = Inr (Exited, p')"
      and "holder h (history p) = (if inside_lock c then Some (Worker i) else None)"
  proof -
    from that(1,2) exit have "c = Check_exit"
      by blast
    with that(3) worker_step_mutex [OF that(2,3)] show ?thesis
      by simp
  qed
  have no_wait: "worker_step i (Look_for_work, p) = Inr (Check_exit, p)"
    if "m_num_threads p \<le> i"
    using that by (simp add: not_less)
  from exit mutex held no_wait worker_steps_retired [of p1 p2 p3 p4 p5 ps i c]
    worker_steps_stay [of qs i c]
  show ?thesis
    by blast
qed

theorem worker_exits_only_on_index_comparison_witness:
  "worker_step 2 (Lock_mutex, ThreadPool 8 3 False :: nat ThreadPool)
     = Inr (Look_for_work, lock (Worker 2) (ThreadPool 8 3 False)) \<and>
   holder None (history (ThreadPool 8 3 False :: nat ThreadPool)) = None \<and>
   holder None (history (lock (Worker 2) (ThreadPool 8 3 False :: nat ThreadPool)))
     = Some (Worker 2) \<and>
   m_num_threads (ThreadPool 8 3 False :: nat ThreadPool) \<le> 3 \<and>
   worker_step 3 (Look_for_work, ThreadPool 8 3 False :: nat ThreadPool)
     = Inr (Check_exit, ThreadPool 8 3 False) \<and>
   worker_step 3 (Check_exit, ThreadPool 8 3 False :: nat ThreadPool)
     = Inr (Exited, unlock (Worker 3) (ThreadPool 8 3 False)) \<and>
   holder None (history (lock (Worker 3) (ThreadPool 8 3 False :: nat ThreadPool)))
     = Some (Worker 3) \<and>
   holder None
     (history (unlock (Worker 3) (lock (Worker 3) (ThreadPool 8 3 False :: nat ThreadPool))))
     = None \<and>
   worker_steps 3
     [ThreadPool 8 3 False :: nat ThreadPool, ThreadPool 8 3 False, ThreadPool 8 3 False,
      ThreadPool 8 3 False, ThreadPool 8 3 False] (Run_task 7) = Inr Exited \<and>
   2 < m_num_threads (ThreadPool 8 3 False :: nat ThreadPool) \<and>
   worker_steps 2
     [ThreadPool 8 3 False :: nat ThreadPool, ThreadPool 8 3 False, ThreadPool 8 3 False,
      ThreadPool 8 3 False, ThreadPool 8 3 False] (Run_task 7) \<noteq> Inr Exited"
proof -
  let ?p = "ThreadPool 8 3 False :: nat ThreadPool"
  let ?c = "Run_task 7 :: nat control"
  have step: "worker_step 2 (Lock_mutex, ?p) = Inr (Look_for_work, lock (Worker 2) ?p)"
    by simp
  have free: "holder None (history ?p) = (if inside_lock (Lock_mutex :: nat control)
      then Some (Worker 2) else None)"
    by (simp add: example_pool)
  have retired: "\<forall>q \<in> set [?p, ?p, ?p, ?p, ?p]. m_num_threads q \<le> 3"
    by (simp add: example_pool)
  have alive: "\<forall>q \<in> set [?p, ?p, ?p, ?p, ?p]. 2 < m_num_threads q"
    by (simp add: example_pool)
  note thm1 = worker_exits_only_on_index_comparison
    [of Lock_mutex 2 ?p "lock (Worker 2) ?p" Look_for_work "lock (Worker 2) ?p" None
      ?p ?p ?p ?p ?p "[]" "[?p, ?p, ?p, ?p, ?p]"]
  note thm2 = worker_exits_only_on_index_comparison
    [of ?c 3 ?p "unlock (Worker 3) ?p" Lock_mutex ?p None ?p ?p ?p ?p ?p "[]" "[]"]
  note thm3 = worker_exits_only_on_index_comparison
    [of Check_exit 3 ?p "unlock (Worker 3) ?p" Lock_mutex ?p None ?p ?p ?p ?p ?p "[]" "[]"]
  note thm4 = worker_exits_only_on_index_comparison
    [of ?c 2 ?p ?p Lock_mutex ?p None ?p ?p ?p ?p ?p "[]" "[?p, ?p, ?p, ?p, ?p]"]
  have held: "holder None (history (lock (Worker 2) ?p)) = Some (Worker 2)"
    using thm1 step free by simp
  have le: "m_num_threads ?p \<le> 3"
    by (simp add: example_pool)
  have no_wait: "worker_step 3 (Look_for_work, ?p) = Inr (Check_exit, ?p)"
    using thm2 le by blast
  have exit: "worker_step 3 (Check_exit, ?p) = Inr (Exited, unlock (Worker 3) ?p)"
    using thm3 le by blast
  have leaves: "worker_steps 3 [?p, ?p, ?p, ?p, ?p] ?c = Inr Exited"
    using thm2 retired by blast
  have stays: "worker_steps 2 [?p, ?p, ?p, ?p, ?p] ?c \<noteq> Inr Exited"
    using thm4 alive by blast
  from alive have "2 < m_num_threads ?p"
    by simp
  note thm5 = worker_exits_only_on_index_comparison
    [of Check_exit 3 "lock (Worker 3) ?p" "unlock (Worker 3) (lock (Worker 3) ?p)"
      Lock_mutex ?p None ?p ?p ?p ?p ?p "[]" "[]"]
  have taken: "holder None (history (lock (Worker 3) ?p))
      = (if inside_lock (Check_exit :: nat control) then Some (Worker 3) else None)"
    by (simp add: example_pool)
  have "worker_step 3 (Check_exit, lock (Worker 3) ?p)
      = Inr (Exited, unlock (Worker 3) (lock (Worker 3) ?p))"
    using le by simp
  with thm5 taken have released:
    "holder None (history (lock (Worker 3) ?p)) = Some (Worker 3) \<and>
     holder None (history (unlock (Worker 3) (lock (Worker 3) ?p))) = None"
    by blast
  with step free held le no_wait exit leaves stays \<open>2 < m_num_threads ?p\<close> show ?thesis
    by simp
qed

section \<open>The order of tasks\<close>

lemma enqueue_task_simps [simp]:
  "m_num_threads (enqueue_task task p) = m_num_threads p"
  "m_threads (enqueue_task task p) = m_threads p"
  "m_task_queue (enqueue_task task p) = m_task_queue p @ [task]"
  "history (enqueue_task task p) = history p @
     [Acquire Caller, Store_task_queue Caller, Release Caller, Notify_one Worker_condition]"
  by (simp_all add: enqueue_task_def)




text \<open>A pool with one worker; three tasks are submitted while the worker moves, and
  are called in the order of their submission.\<close>

lemma three_tasks_one_worker:
  "\<exists>p. serve 0
      [Submit 10, Submit 20, Worker_moves, Worker_moves, Worker_moves, Worker_moves,
       Submit 30, Worker_moves, Worker_moves, Worker_moves, Worker_moves, Worker_moves,
       Worker_moves, Worker_moves, Worker_moves, Worker_moves, Worker_moves]
      ([], Lock_mutex, ThreadPool 8 1 False :: nat ThreadPool)
    = Inr ([10, 20, 30], Run_task 30, p) \<and> m_task_queue p = []"
  by (simp add: example_lifetime_0 enqueue_task_def lock_def unlock_def notify_one_def
      notify_all_def store_task_queue_def emit_def)

section \<open>Waiting for the queue\<close>

lemma wait_loop_iff: "(\<exists>p'. wait_loop qs p = Inr p') \<longleftrightarrow> [] \<in> set qs"
  using wait_loop_result [of qs p] wait_loop_returns [of qs p] by blast

text \<open>
  Claim C5. \<^verbatim>\<open>wait_until_queue_completed\<close> returns only in a state in which the queue,
  as the caller finds it while holding the mutex, is empty; it returns if and only if
  the caller finds the queue empty at one of its evaluations of the predicate. It changes
  neither the target count nor the threads. A task that a worker took out before
  may still be running then: see \<open>queue_empty_while_task_runs\<close> below.
\<close>

theorem wait_returns_only_with_empty_queue:
  "(wait_until_queue_completed qs p = Inr p' \<longrightarrow>
      m_task_queue p' = [] \<and> m_num_threads p' = m_num_threads p \<and>
      m_threads p' = m_threads p) \<and>
   ((\<exists>p'. wait_until_queue_completed qs p = Inr p') \<longleftrightarrow> [] \<in> set qs)"
  using wait_loop_result [of qs "lock Caller p" p'] wait_loop_iff [of qs "lock Caller p"]
  by (simp add: wait_until_queue_completed_def)

theorem wait_returns_only_with_empty_queue_witness:
  "wait_until_queue_completed [[4, 5], [5], []] (ThreadPool 8 3 False :: nat ThreadPool) =
     Inr \<lparr>m_num_threads = 3, m_threads = [Thread 0 0, Thread 1 1, Thread 2 2],
       m_task_queue = [],
       history = [Store_num_threads Caller, Spawn (Thread 0 0), Spawn (Thread 1 1),
         Spawn (Thread 2 2), Acquire Caller, Release Caller, Acquire Caller, Release Caller,
         Acquire Caller, Release Caller]\<rparr> \<and>
   m_task_queue \<lparr>m_num_threads = 3, m_threads = [Thread 0 0, Thread 1 1, Thread 2 2],
       m_task_queue = ([] :: nat list),
       history = [Store_num_threads Caller, Spawn (Thread 0 0), Spawn (Thread 1 1),
         Spawn (Thread 2 2), Acquire Caller, Release Caller, Acquire Caller, Release Caller,
         Acquire Caller, Release Caller]\<rparr> = []"
proof -
  let ?p = "ThreadPool 8 3 False :: nat ThreadPool"
  let ?p' = "\<lparr>m_num_threads = 3, m_threads = [Thread 0 0, Thread 1 1, Thread 2 2],
       m_task_queue = ([] :: nat list),
       history = [Store_num_threads Caller, Spawn (Thread 0 0), Spawn (Thread 1 1),
         Spawn (Thread 2 2), Acquire Caller, Release Caller, Acquire Caller, Release Caller,
         Acquire Caller, Release Caller]\<rparr>"
  have ret: "wait_until_queue_completed [[4, 5], [5], []] ?p = Inr ?p'"
    by (simp add: example_pool wait_until_queue_completed_def lock_def unlock_def emit_def)
  with wait_returns_only_with_empty_queue [of "[[4, 5], [5], []]" ?p ?p']
  have "m_task_queue ?p' = []"
    by blast
  with ret show ?thesis
    by blast
qed

lemma queue_empty_while_task_runs:
  "\<exists>p1. worker_step 0 (Take_task, (ThreadPool 8 1 False :: nat ThreadPool)\<lparr>m_task_queue := [7]\<rparr>)
       = Inr (Run_task 7, p1) \<and>
     (\<exists>p'. wait_until_queue_completed [m_task_queue p1] p1 = Inr p')"
  by (simp add: wait_until_queue_completed_def)

section \<open>Stores under the mutex\<close>

text \<open>
  Claim C6 fails on the code. \<^verbatim>\<open>start_threads\<close> executes \<^verbatim>\<open>m_num_threads += num\<close> without
  taking the mutex, whoever holds it, while the workers read \<^verbatim>\<open>m_num_threads\<close>;
  \<^verbatim>\<open>shutdown_threads\<close> takes the mutex for the same store. On a pool with one running
  worker:
\<close>

theorem start_threads_stores_without_lock:
  "history (start_threads 1 (ThreadPool 8 1 False :: nat ThreadPool)) =
     history (ThreadPool 8 1 False :: nat ThreadPool) @
       [Store_num_threads Caller, Spawn (Thread 1 1)] \<and>
   stores_without_lock None [Store_num_threads Caller, Spawn (Thread 1 1)]
     = [Store_num_threads Caller] \<and>
   stores_without_lock (Some (Worker 0)) [Store_num_threads Caller, Spawn (Thread 1 1)]
     = [Store_num_threads Caller] \<and>
   shutdown_threads 1 (ThreadPool 8 1 False :: nat ThreadPool) =
     Inr \<lparr>m_num_threads = 0, m_threads = [], m_task_queue = [],
       history = history (ThreadPool 8 1 False :: nat ThreadPool) @
         [Acquire Caller, Store_num_threads Caller, Release Caller,
          Notify_all Worker_condition, Join (Thread 0 0)]\<rparr> \<and>
   stores_without_lock None
     [Acquire Caller, Store_num_threads Caller, Release Caller,
      Notify_all Worker_condition, Join (Thread 0 0)] = []"
  by (simp only: example_lifetime)
    (simp add: pool_evals join_loop.simps)

end
